theory Spec2Isabelle
  imports Main
begin

section \<open>Python strings and the interpreter's Unicode tables\<close>

text \<open>
  A Python \<^verbatim>\<open>str\<close> is a sequence of Unicode code points; \<^verbatim>\<open>len\<close>, \<^verbatim>\<open>isspace\<close>,
  \<^verbatim>\<open>strip\<close> and the regular expressions of \<^verbatim>\<open>pdf_reader_pipeline.py\<close> all work per code
  point. A string is therefore a list of code points, and an ASCII literal of the source
  is written \<open>u ''last''\<close>.
\<close>

type_synonym codepoint = nat
type_synonym pystr = "codepoint list"

definition u :: "string \<Rightarrow> pystr" where
  "u s = map of_char s"

text \<open>
  The character classes and the case mapping come from the Unicode database compiled into
  the interpreter, which is not part of the repository. They are a parameter of the model:
  \<^item> \<open>cp_isspace\<close>: the whitespace test shared by \<^verbatim>\<open>str.isspace\<close>, \<^verbatim>\<open>str.strip\<close> and
    the regular expression class \<^verbatim>\<open>\s\<close>;
  \<^item> \<open>cp_decimal\<close>: the decimal digit value of a code point, defined exactly for the
    characters of the class \<^verbatim>\<open>\d\<close>, which are also the characters \<^verbatim>\<open>int()\<close> reads;
  \<^item> \<open>cp_isdigit\<close>: the per-character test of \<^verbatim>\<open>str.isdigit\<close>;
  \<^item> \<open>str_lower\<close>: \<^verbatim>\<open>str.lower\<close>, a function of the whole string.
\<close>

record unicode_db =
  cp_isspace :: "codepoint \<Rightarrow> bool"
  cp_decimal :: "codepoint \<Rightarrow> nat option"
  cp_isdigit :: "codepoint \<Rightarrow> bool"
  str_lower :: "pystr \<Rightarrow> pystr"

text \<open>The ASCII block of the tables, which every version of the database agrees on.\<close>

definition ascii_space :: "codepoint \<Rightarrow> bool" where
  "ascii_space c = (c \<in> {9, 10, 11, 12, 13, 28, 29, 30, 31, 32})"

definition ascii_decimal :: "codepoint \<Rightarrow> nat option" where
  "ascii_decimal c = (if 48 \<le> c \<and> c \<le> 57 then Some (c - 48) else None)"

definition ascii_lower :: "codepoint \<Rightarrow> codepoint" where
  "ascii_lower c = (if 65 \<le> c \<and> c \<le> 90 then c + 32 else c)"

definition is_ascii :: "pystr \<Rightarrow> bool" where
  "is_ascii s = list_all (\<lambda>c. c < 128) s"

definition ascii_compatible :: "unicode_db \<Rightarrow> bool" where
  "ascii_compatible U =
     ((\<forall>c<128. cp_isspace U c = ascii_space c) \<and>
      (\<forall>c<128. cp_decimal U c = ascii_decimal c) \<and>
      (\<forall>c<128. cp_isdigit U c = (ascii_decimal c \<noteq> None)) \<and>
      (\<forall>s. is_ascii s \<longrightarrow> str_lower U s = map ascii_lower s))"

text \<open>The smallest database: nothing outside ASCII is a space, a digit or a cased letter.\<close>

definition ascii_db :: unicode_db where
  "ascii_db = \<lparr> cp_isspace = ascii_space, cp_decimal = ascii_decimal,
                cp_isdigit = (\<lambda>c. ascii_decimal c \<noteq> None), str_lower = map ascii_lower \<rparr>"

subsection \<open>The string methods the source calls\<close>

definition strip :: "unicode_db \<Rightarrow> pystr \<Rightarrow> pystr" where
  "strip U s = rev (dropWhile (cp_isspace U) (rev (dropWhile (cp_isspace U) s)))"

definition startswith :: "pystr \<Rightarrow> pystr \<Rightarrow> bool" where
  "startswith s p = (take (length p) s = p)"

text \<open>\<^verbatim>\<open>s.isdigit()\<close>: every character is a digit and there is at least one.\<close>

definition isdigit :: "unicode_db \<Rightarrow> pystr \<Rightarrow> bool" where
  "isdigit U s = (s \<noteq> [] \<and> list_all (cp_isdigit U) s)"

text \<open>
  \<^verbatim>\<open>s.split("-", 1)[1]\<close>: what follows the first hyphen. The source reads it only after
  \<^verbatim>\<open>startswith("last-")\<close>, so the hyphen is there.
\<close>

definition split_dash_1 :: "pystr \<Rightarrow> pystr" where
  "split_dash_1 s = drop 1 (dropWhile (\<lambda>c. c \<noteq> 45) s)"

text \<open>\<^verbatim>\<open>s.split(",")\<close>: the segments between commas, empty ones included; never an empty list.\<close>

fun split_comma :: "pystr \<Rightarrow> pystr list" where
  "split_comma [] = [[]]"
| "split_comma (c # cs) =
     (if c = 44 then [] # split_comma cs
      else (c # hd (split_comma cs)) # tl (split_comma cs))"

datatype error =
    InvalidLastOffset pystr
  | PageOutOfRange pystr
  | InvalidToken pystr
  | EndpointOutOfRange pystr
  | InvalidEndpoint pystr
  | EmptyAfterParsing pystr
  | NoValidPages pystr
  | InvalidIntLiteral pystr

text \<open>
  \<^verbatim>\<open>int(s)\<close> on a string that passed \<^verbatim>\<open>isdigit\<close>: the value in base ten when every
  character is a decimal digit, \<^verbatim>\<open>ValueError\<close> otherwise (a digit such as a superscript
  two is not a decimal). Python integers are unbounded; the limit that the interpreter
  puts on the number of digits of a literal is left out.
\<close>

fun decimal_value :: "unicode_db \<Rightarrow> int \<Rightarrow> pystr \<Rightarrow> int option" where
  "decimal_value U acc [] = Some acc"
| "decimal_value U acc (c # cs) =
     (case cp_decimal U c of
        None \<Rightarrow> None
      | Some d \<Rightarrow> decimal_value U (acc * 10 + int d) cs)"

definition py_int :: "unicode_db \<Rightarrow> pystr \<Rightarrow> error + int" where
  "py_int U s =
     (if s = [] then Inl (InvalidIntLiteral s)
      else case decimal_value U 0 s of
             None \<Rightarrow> Inl (InvalidIntLiteral s)
           | Some n \<Rightarrow> Inr n)"

section \<open>Regular expressions\<close>

text \<open>
  The module \<^verbatim>\<open>re\<close> matches by backtracking. A pattern is modelled as a function from a
  state of the match (the groups closed so far, the offset in the subject, the rest of the
  subject) to the list of the states in which it can leave the match, in the order in which
  the engine tries them: a greedy repetition offers its longest match first, an alternation
  its left branch first.
\<close>

type_synonym mstate = "pystr list \<times> nat \<times> pystr"
type_synonym rx = "mstate \<Rightarrow> mstate list"

text \<open>\<^verbatim>\<open>^\<close>: the start of the subject.\<close>

definition rx_bol :: rx where
  "rx_bol = (\<lambda>(gs, pos, s). if pos = 0 then [(gs, pos, s)] else [])"

text \<open>\<^verbatim>\<open>$\<close>: the end of the subject, or just before a newline that ends it.\<close>

definition rx_eol :: rx where
  "rx_eol = (\<lambda>(gs, pos, s). if s = [] \<or> s = [10] then [(gs, pos, s)] else [])"

definition rx_lit :: "pystr \<Rightarrow> rx" where
  "rx_lit w = (\<lambda>(gs, pos, s).
     if take (length w) s = w then [(gs, pos + length w, drop (length w) s)] else [])"

text \<open>\<^verbatim>\<open>C*\<close> and \<^verbatim>\<open>C+\<close> for a character class \<open>C\<close>, greedy.\<close>

definition rx_star :: "(codepoint \<Rightarrow> bool) \<Rightarrow> rx" where
  "rx_star C = (\<lambda>(gs, pos, s).
     map (\<lambda>k. (gs, pos + k, drop k s)) (rev [0..<Suc (length (takeWhile C s))]))"

definition rx_plus :: "(codepoint \<Rightarrow> bool) \<Rightarrow> rx" where
  "rx_plus C = (\<lambda>(gs, pos, s).
     map (\<lambda>k. (gs, pos + k, drop k s)) (rev [1..<Suc (length (takeWhile C s))]))"

definition rx_seq :: "rx \<Rightarrow> rx \<Rightarrow> rx" where
  "rx_seq p q = (\<lambda>st. concat (map q (p st)))"

definition rx_alt :: "rx \<Rightarrow> rx \<Rightarrow> rx" where
  "rx_alt p q = (\<lambda>st. p st @ q st)"

text \<open>\<^verbatim>\<open>(?:p)?\<close>, greedy: with \<open>p\<close> first, without it next.\<close>

definition rx_opt :: "rx \<Rightarrow> rx" where
  "rx_opt p = (\<lambda>st. p st @ [st])"

text \<open>\<^verbatim>\<open>(p)\<close>: a capturing group; the groups of the two patterns are not nested.\<close>

definition rx_group :: "rx \<Rightarrow> rx" where
  "rx_group p = (\<lambda>(gs, pos, s).
     map (\<lambda>(gs', pos', s'). (gs' @ [take (pos' - pos) s], pos', s')) (p (gs, pos, s)))"

text \<open>
  \<^verbatim>\<open>pattern.fullmatch(s)\<close>: the groups of the first way of matching that consumes the whole
  subject, \<open>None\<close> when there is none.
\<close>

definition fullmatch :: "rx \<Rightarrow> pystr \<Rightarrow> pystr list option" where
  "fullmatch p s =
     (case filter (\<lambda>(gs, pos, r). r = []) (p ([], 0, s)) of
        [] \<Rightarrow> None
      | (gs, pos, r) # _ \<Rightarrow> Some gs)"

section \<open>Page parsing\<close>

definition is_decimal :: "unicode_db \<Rightarrow> codepoint \<Rightarrow> bool" where
  "is_decimal U c = (cp_decimal U c \<noteq> None)"

text \<open>The subpattern \<^verbatim>\<open>last(?:-\d+)?|\d+\<close> that both patterns share.\<close>

definition endpoint_rx :: "unicode_db \<Rightarrow> rx" where
  "endpoint_rx U =
     rx_alt (rx_seq (rx_lit (u ''last'')) (rx_opt (rx_seq (rx_lit (u ''-'')) (rx_plus (is_decimal U)))))
            (rx_plus (is_decimal U))"

text \<open>\<^verbatim>\<open>^\s*(last(?:-\d+)?|\d+)\s*-\s*(last(?:-\d+)?|\d+)\s*$\<close>\<close>

definition RANGE_RE :: "unicode_db \<Rightarrow> rx" where
  "RANGE_RE U =
     rx_seq rx_bol (rx_seq (rx_star (cp_isspace U)) (rx_seq (rx_group (endpoint_rx U))
    (rx_seq (rx_star (cp_isspace U)) (rx_seq (rx_lit (u ''-'')) (rx_seq (rx_star (cp_isspace U))
    (rx_seq (rx_group (endpoint_rx U)) (rx_seq (rx_star (cp_isspace U)) rx_eol)))))))"

text \<open>\<^verbatim>\<open>^\s*(last(?:-\d+)?|\d+|all)\s*$\<close>\<close>

definition SINGLE_RE :: "unicode_db \<Rightarrow> rx" where
  "SINGLE_RE U =
     rx_seq rx_bol (rx_seq (rx_star (cp_isspace U))
    (rx_seq (rx_group (rx_alt (endpoint_rx U) (rx_lit (u ''all''))))
    (rx_seq (rx_star (cp_isspace U)) rx_eol)))"

text \<open>
  \<^verbatim>\<open>_DASHES\<close>: the table that \<^verbatim>\<open>str.translate\<close> applies, seven Unicode dashes
  (U+2010 to U+2015 and U+2212) to the ASCII hyphen.
\<close>

definition DASHES :: "codepoint \<Rightarrow> codepoint" where
  "DASHES c = (if c \<in> {8208, 8209, 8210, 8211, 8212, 8213, 8722} then 45 else c)"

text \<open>\<^verbatim>\<open>_parse_one_token\<close>: a single token to a zero-based index, \<open>-2\<close> for \<^verbatim>\<open>all\<close>.\<close>

definition parse_one_token :: "unicode_db \<Rightarrow> pystr \<Rightarrow> int \<Rightarrow> error + int" where
  "parse_one_token U tok total_pages =
     (let t = str_lower U (strip U tok) in
      if t = u ''all'' then Inr (- 2)
      else if t = u ''last'' then Inr (total_pages - 1)
      else if startswith t (u ''last-'') then
        (let off_str = split_dash_1 t in
         if \<not> isdigit U off_str then Inl (InvalidLastOffset tok)
         else case py_int U off_str of
                Inl e \<Rightarrow> Inl e
              | Inr k \<Rightarrow>
                  (let idx = total_pages - 1 - k in
                   if \<not> (0 \<le> idx \<and> idx < total_pages) then Inl (PageOutOfRange tok)
                   else Inr idx))
      else if isdigit U t then
        (case py_int U t of
           Inl e \<Rightarrow> Inl e
         | Inr p \<Rightarrow>
             if \<not> (1 \<le> p \<and> p \<le> total_pages) then Inl (PageOutOfRange tok)
             else Inr (p - 1))
      else Inl (InvalidToken tok))"

text \<open>\<^verbatim>\<open>_parse_endpoint\<close>: an endpoint of a range to a one-based page number.\<close>

definition parse_endpoint :: "unicode_db \<Rightarrow> pystr \<Rightarrow> int \<Rightarrow> error + int" where
  "parse_endpoint U val total_pages =
     (let t = str_lower U (strip U val) in
      if t = u ''all'' \<or> t = u ''last'' then Inr total_pages
      else if startswith t (u ''last-'') then
        (let off_str = split_dash_1 t in
         if \<not> isdigit U off_str then Inl (InvalidLastOffset val)
         else case py_int U off_str of
                Inl e \<Rightarrow> Inl e
              | Inr k \<Rightarrow>
                  (let res = total_pages - k in
                   if \<not> (1 \<le> res \<and> res \<le> total_pages) then Inl (EndpointOutOfRange val)
                   else Inr res))
      else if isdigit U t then
        (case py_int U t of
           Inl e \<Rightarrow> Inl e
         | Inr res \<Rightarrow>
             if \<not> (1 \<le> res \<and> res \<le> total_pages) then Inl (EndpointOutOfRange val)
             else Inr res)
      else Inl (InvalidEndpoint val))"

text \<open>\<^verbatim>\<open>range(a, b)\<close> as a list.\<close>

definition py_range :: "int \<Rightarrow> int \<Rightarrow> int list" where
  "py_range a b = [a..b - 1]"

text \<open>
  The loop of \<^verbatim>\<open>parse_pages_arg\<close> over the segments, with its two variables
  \<^verbatim>\<open>wanted\<close> and \<^verbatim>\<open>any_tok\<close>; an exception ends it.
\<close>

fun pages_loop ::
  "unicode_db \<Rightarrow> int \<Rightarrow> pystr list \<Rightarrow> int list \<times> bool \<Rightarrow> error + (int list \<times> bool)" where
  "pages_loop U total_pages [] st = Inr st"
| "pages_loop U total_pages (raw # rest) (wanted, any_tok) =
     (let tok = strip U raw in
      if tok = [] then pages_loop U total_pages rest (wanted, any_tok)
      else
        let tok_l = str_lower U tok in
        if fullmatch (SINGLE_RE U) tok_l \<noteq> None then
          (case parse_one_token U tok total_pages of
             Inl e \<Rightarrow> Inl e
           | Inr idx \<Rightarrow>
               if idx = - 2 then pages_loop U total_pages rest (wanted @ py_range 0 total_pages, True)
               else pages_loop U total_pages rest (wanted @ [idx], True))
        else
          (case fullmatch (RANGE_RE U) tok_l of
             Some [a_str, b_str] \<Rightarrow>
               (case parse_endpoint U a_str total_pages of
                  Inl e \<Rightarrow> Inl e
                | Inr a \<Rightarrow>
                    (case parse_endpoint U b_str total_pages of
                       Inl e \<Rightarrow> Inl e
                     | Inr b \<Rightarrow>
                         (let (a, b) = (if a > b then (b, a) else (a, b)) in
                          pages_loop U total_pages rest (wanted @ py_range (a - 1) b, True))))
           | _ \<Rightarrow> Inl (InvalidToken tok)))"

text \<open>
  \<^verbatim>\<open>parse_pages_arg\<close>: \<open>Inr None\<close> is the \<^verbatim>\<open>None\<close> it returns for an empty argument,
  \<open>Inr (Some res)\<close> a list of pages, \<open>Inl e\<close> a \<^verbatim>\<open>ValueError\<close>.
\<close>

definition parse_pages_arg :: "unicode_db \<Rightarrow> pystr \<Rightarrow> int \<Rightarrow> error + int list option" where
  "parse_pages_arg U pages_arg total_pages =
     (if pages_arg = [] then Inr None
      else
        let raw_arg = map DASHES pages_arg in
        case pages_loop U total_pages (split_comma raw_arg) ([], False) of
          Inl e \<Rightarrow> Inl e
        | Inr (wanted, any_tok) \<Rightarrow>
            if \<not> any_tok then Inl (EmptyAfterParsing pages_arg)
            else
              let res = sorted_list_of_set (set wanted) in
              if res = [] then Inl (NoValidPages pages_arg)
              else Inr (Some res))"

text \<open>\<^verbatim>\<open>str(n)\<close> for a natural number, the way the properties write page numbers.\<close>

fun str_nat :: "nat \<Rightarrow> pystr" where
  "str_nat n = (if n < 10 then [48 + n] else str_nat (n div 10) @ [48 + n mod 10])"

declare str_nat.simps [simp del]

section \<open>The text of a page: the scanned-page gate and the choice of a source\<close>

text \<open>
  \<^verbatim>\<open>PDFInspector._is_scanned\<close>: the characters that are not whitespace are joined and
  counted.
\<close>

definition is_scanned :: "unicode_db \<Rightarrow> pystr \<Rightarrow> bool" where
  "is_scanned U txt = (length (filter (\<lambda>ch. \<not> cp_isspace U ch) txt) < 20)"

text \<open>
  The body of the loop of \<^verbatim>\<open>extract_full_text\<close> for one page, from the direct text
  \<^verbatim>\<open>txt\<close> of the page and the text \<^verbatim>\<open>ocr_txt\<close> that \<^verbatim>\<open>_ocr_page\<close> gives for it (the
  empty string when the engine is missing): the engine is asked only when the gate fires
  and \<^verbatim>\<open>ocr_if_scanned\<close> is set.
\<close>

definition page_text :: "unicode_db \<Rightarrow> bool \<Rightarrow> pystr \<Rightarrow> pystr \<Rightarrow> pystr" where
  "page_text U ocr_if_scanned txt ocr_txt =
     (if is_scanned U txt \<and> ocr_if_scanned then
        (if length (strip U ocr_txt) > length (strip U txt) then ocr_txt else txt)
      else txt)"

text \<open>
  The specification calls the choice made there \<^verbatim>\<open>choose(direct_text, fallback_text)\<close>,
  with an absent fallback when the engine was not asked. This definition follows its
  words; the loop body is compared with it below.
\<close>

definition choose_spec :: "unicode_db \<Rightarrow> pystr \<Rightarrow> pystr option \<Rightarrow> pystr" where
  "choose_spec U direct_text fallback =
     (case fallback of
        None \<Rightarrow> direct_text
      | Some fallback_text \<Rightarrow>
          if length (strip U fallback_text) > length (strip U direct_text) then fallback_text
          else direct_text)"

text \<open>\<^verbatim>\<open>str(i)\<close> for an integer: a minus sign before the digits of a negative one.\<close>

definition py_str :: "int \<Rightarrow> pystr" where
  "py_str i = (if i < 0 then 45 # str_nat (nat (- i)) else str_nat (nat i))"

section \<open>Notions for the proofs\<close>

text \<open>
  The endpoints that the properties write: a page number \<^verbatim>\<open>N\<close>, \<^verbatim>\<open>last\<close>, or
  \<^verbatim>\<open>last-K\<close>, each with the text that stands for it, and the range token made of two of
  them around a hyphen.
\<close>

datatype endpoint = Num nat | Last | LastMinus nat

fun endpoint_str :: "endpoint \<Rightarrow> pystr" where
  "endpoint_str (Num n) = str_nat n"
| "endpoint_str Last = u ''last''"
| "endpoint_str (LastMinus k) = u ''last-'' @ str_nat k"

definition range_token :: "endpoint \<Rightarrow> endpoint \<Rightarrow> pystr" where
  "range_token e1 e2 = endpoint_str e1 @ u ''-'' @ endpoint_str e2"

definition is_num :: "endpoint \<Rightarrow> bool" where
  "is_num e = (case e of Num n \<Rightarrow> True | _ \<Rightarrow> False)"

text \<open>Strings of ASCII characters none of which is an upper-case letter or a space.\<close>

definition plain :: "pystr \<Rightarrow> bool" where
  "plain s = list_all (\<lambda>c. c < 128 \<and> \<not> (65 \<le> c \<and> c \<le> 90) \<and> \<not> ascii_space c) s"

text \<open>The state a pattern reaches first, the one the engine goes on with.\<close>

definition first_result :: "rx \<Rightarrow> mstate \<Rightarrow> mstate \<Rightarrow> bool" where
  "first_result p st st' = (\<exists>more. p st = st' # more)"

text \<open>A bound on the texts a pattern can consume, whichever way it matches.\<close>

definition consumes :: "rx \<Rightarrow> (pystr \<Rightarrow> bool) \<Rightarrow> bool" where
  "consumes p L =
     (\<forall>gs pos s gs' pos' r. (gs', pos', r) \<in> set (p (gs, pos, s)) \<longrightarrow> (\<exists>w. s = w @ r \<and> L w))"

text \<open>The texts that \<^verbatim>\<open>last(?:-\d+)?|\d+\<close> can consume.\<close>

definition endpoint_lang :: "unicode_db \<Rightarrow> pystr \<Rightarrow> bool" where
  "endpoint_lang U w =
     (w = u ''last'' \<or>
      (\<exists>ds. ds \<noteq> [] \<and> list_all (is_decimal U) ds \<and> (w = u ''last-'' @ ds \<or> w = ds)))"

section \<open>Auxiliary lemmas\<close>

lemma ascii_db_compatible: "ascii_compatible ascii_db"
  by (simp add: ascii_compatible_def ascii_db_def)

lemma u_Nil [simp]: "u [] = []"
  by (simp add: u_def)

lemma u_Cons [simp]: "u (c # cs) = of_char c # u cs"
  by (simp add: u_def)

lemma ac_space: "ascii_compatible U \<Longrightarrow> c < 128 \<Longrightarrow> cp_isspace U c = ascii_space c"
  by (simp add: ascii_compatible_def)

lemma nonspace_positions:
  "card {i. i < length txt \<and> \<not> cp_isspace U (txt ! i)} = length (filter (\<lambda>ch. \<not> cp_isspace U ch) txt)"
  by (simp add: length_filter_conv_card)

subsection \<open>The ASCII block\<close>

lemma ac_decimal: "ascii_compatible U \<Longrightarrow> c < 128 \<Longrightarrow> cp_decimal U c = ascii_decimal c"
  by (simp add: ascii_compatible_def)

lemma ac_is_decimal:
  "ascii_compatible U \<Longrightarrow> c < 128 \<Longrightarrow> is_decimal U c = (48 \<le> c \<and> c \<le> 57)"
  by (simp add: is_decimal_def ac_decimal ascii_decimal_def)

lemma ac_isdigit:
  "ascii_compatible U \<Longrightarrow> c < 128 \<Longrightarrow> cp_isdigit U c = (48 \<le> c \<and> c \<le> 57)"
  by (simp add: ascii_compatible_def ascii_decimal_def)

lemma ac_lower: "ascii_compatible U \<Longrightarrow> is_ascii s \<Longrightarrow> str_lower U s = map ascii_lower s"
  by (simp add: ascii_compatible_def)

lemma plain_Nil [simp]: "plain []"
  by (simp add: plain_def)

lemma plain_Cons [simp]:
  "plain (c # s) = (c < 128 \<and> \<not> (65 \<le> c \<and> c \<le> 90) \<and> \<not> ascii_space c \<and> plain s)"
  by (simp add: plain_def)

lemma plain_append [simp]: "plain (s @ t) = (plain s \<and> plain t)"
  by (simp add: plain_def)

lemma plain_lower: "ascii_compatible U \<Longrightarrow> plain s \<Longrightarrow> str_lower U s = s"
proof -
  assume U: "ascii_compatible U" and s: "plain s"
  from s have "is_ascii s"
    by (simp add: plain_def is_ascii_def list_all_iff)
  moreover from s have "map ascii_lower s = s"
    by (induction s) (simp_all add: ascii_lower_def)
  ultimately show ?thesis using U by (simp add: ac_lower)
qed

lemma plain_dropWhile: "ascii_compatible U \<Longrightarrow> plain s \<Longrightarrow> dropWhile (cp_isspace U) s = s"
  by (cases s) (simp_all add: ac_space)

lemma plain_strip: "ascii_compatible U \<Longrightarrow> plain s \<Longrightarrow> strip U s = s"
proof -
  assume U: "ascii_compatible U" and s: "plain s"
  from s have "plain (rev s)" by (simp add: plain_def)
  with U s show ?thesis by (simp add: strip_def plain_dropWhile)
qed

lemma plain_DASHES: "plain s \<Longrightarrow> map DASHES s = s"
  by (induction s) (simp_all add: DASHES_def)

lemma split_comma_single: "44 \<notin> set s \<Longrightarrow> split_comma s = [s]"
  by (induction s) simp_all

subsection \<open>Decimal numerals\<close>

lemma str_nat_not_Nil [simp]: "str_nat n \<noteq> []"
  by (subst str_nat.simps) simp

lemma str_nat_digits: "c \<in> set (str_nat n) \<Longrightarrow> 48 \<le> c \<and> c \<le> 57"
proof (induction n arbitrary: c rule: str_nat.induct)
  case (1 n)
  show ?case
  proof (cases "n < 10")
    case True
    with "1.prems" show ?thesis by (subst (asm) str_nat.simps) simp
  next
    case False
    from "1.prems" have "c \<in> set (str_nat (n div 10)) \<or> c = 48 + n mod 10"
      using False by (subst (asm) str_nat.simps) auto
    then show ?thesis
    proof
      assume "c \<in> set (str_nat (n div 10))"
      with "1.IH" False show ?thesis by simp
    next
      assume "c = 48 + n mod 10"
      then show ?thesis by simp
    qed
  qed
qed

lemma str_nat_plain [simp]: "plain (str_nat n)"
  using str_nat_digits [of _ n] by (fastforce simp: plain_def list_all_iff ascii_space_def)

lemma str_nat_all_decimal:
  "ascii_compatible U \<Longrightarrow> list_all (is_decimal U) (str_nat n)"
  using str_nat_digits [of _ n] by (fastforce simp: list_all_iff ac_is_decimal)

lemma str_nat_isdigit: "ascii_compatible U \<Longrightarrow> isdigit U (str_nat n)"
  using str_nat_digits [of _ n] by (fastforce simp: isdigit_def list_all_iff ac_isdigit)

lemma decimal_value_append:
  "decimal_value U acc (xs @ ys) =
     (case decimal_value U acc xs of None \<Rightarrow> None | Some a \<Rightarrow> decimal_value U a ys)"
  by (induction xs arbitrary: acc) (simp_all split: option.split)

lemma decimal_value_str_nat:
  "ascii_compatible U \<Longrightarrow> decimal_value U 0 (str_nat n) = Some (int n)"
proof (induction n rule: str_nat.induct)
  case (1 n)
  show ?case
  proof (cases "n < 10")
    case True
    with "1.prems" show ?thesis
      by (subst str_nat.simps) (simp add: ac_decimal ascii_decimal_def)
  next
    case False
    with "1.IH" "1.prems" have "decimal_value U 0 (str_nat (n div 10)) = Some (int (n div 10))"
      by simp
    moreover have "n mod 10 < 10" by simp
    ultimately show ?thesis using False "1.prems"
      by (subst str_nat.simps)
        (simp add: decimal_value_append ac_decimal ascii_decimal_def zdiv_int zmod_int)
  qed
qed

lemma py_int_str_nat: "ascii_compatible U \<Longrightarrow> py_int U (str_nat n) = Inr (int n)"
  by (simp add: py_int_def decimal_value_str_nat)

subsection \<open>The first way a pattern matches\<close>

lemma first_seq:
  "first_result p st m \<Longrightarrow> first_result q m st' \<Longrightarrow> first_result (rx_seq p q) st st'"
  by (auto simp: first_result_def rx_seq_def)

lemma first_alt_left: "first_result p st st' \<Longrightarrow> first_result (rx_alt p q) st st'"
  by (auto simp: first_result_def rx_alt_def)

lemma first_alt_right: "p st = [] \<Longrightarrow> first_result q st st' \<Longrightarrow> first_result (rx_alt p q) st st'"
  by (auto simp: first_result_def rx_alt_def)

lemma first_opt: "first_result p st st' \<Longrightarrow> first_result (rx_opt p) st st'"
  by (auto simp: first_result_def rx_opt_def)

lemma first_opt_skip: "p st = [] \<Longrightarrow> first_result (rx_opt p) st st"
  by (auto simp: first_result_def rx_opt_def)

lemma first_group:
  "first_result p (gs, pos, s) (gs', pos', s') \<Longrightarrow>
   first_result (rx_group p) (gs, pos, s) (gs' @ [take (pos' - pos) s], pos', s')"
  by (auto simp: first_result_def rx_group_def)

lemma first_bol: "first_result rx_bol (gs, 0, s) (gs, 0, s)"
  by (simp add: first_result_def rx_bol_def)

lemma first_eol: "first_result rx_eol (gs, pos, []) (gs, pos, [])"
  by (simp add: first_result_def rx_eol_def)

lemma first_lit: "first_result (rx_lit w) (gs, pos, w @ r) (gs, pos + length w, r)"
  by (simp add: first_result_def rx_lit_def)

lemma takeWhile_stop:
  "list_all C w \<Longrightarrow> r = [] \<or> \<not> C (hd r) \<Longrightarrow> takeWhile C (w @ r) = w"
  by (cases r) (auto simp: list_all_iff takeWhile_append2 intro: takeWhile_eq_all_conv [THEN iffD2])

lemma first_star:
  assumes "list_all C w" and "r = [] \<or> \<not> C (hd r)"
  shows "first_result (rx_star C) (gs, pos, w @ r) (gs, pos + length w, r)"
  using takeWhile_stop [OF assms] by (simp add: first_result_def rx_star_def)

lemma first_star_none:
  "r = [] \<or> \<not> C (hd r) \<Longrightarrow> first_result (rx_star C) (gs, pos, r) (gs, pos, r)"
  using first_star [of C "[]" r gs pos] by simp

lemma first_plus:
  assumes "list_all C w" and "w \<noteq> []" and "r = [] \<or> \<not> C (hd r)"
  shows "first_result (rx_plus C) (gs, pos, w @ r) (gs, pos + length w, r)"
proof -
  from assms(2) obtain n where n: "length w = Suc n"
    by (cases w) auto
  from takeWhile_stop [OF assms(1,3)] n show ?thesis
    by (simp add: first_result_def rx_plus_def)
qed

lemma plus_none: "r = [] \<or> \<not> C (hd r) \<Longrightarrow> rx_plus C (gs, pos, r) = []"
  by (cases r) (auto simp: rx_plus_def)

lemma lit_none: "take (length w) s \<noteq> w \<Longrightarrow> rx_lit w (gs, pos, s) = []"
  by (simp add: rx_lit_def)

lemma seq_none: "p st = [] \<Longrightarrow> rx_seq p q st = []"
  by (simp add: rx_seq_def)

lemma first_fullmatch: "first_result p ([], 0, s) (gs, pos, []) \<Longrightarrow> fullmatch p s = Some gs"
  by (auto simp: first_result_def fullmatch_def)

subsection \<open>What a pattern consumes\<close>

lemma consumes_bol: "consumes rx_bol (\<lambda>w. w = [])"
  by (auto simp: consumes_def rx_bol_def split: if_splits)

lemma consumes_eol: "consumes rx_eol (\<lambda>w. w = [])"
  by (auto simp: consumes_def rx_eol_def split: if_splits)

lemma consumes_lit: "consumes (rx_lit v) (\<lambda>w. w = v)"
proof -
  have "s = v @ drop (length v) s" if "take (length v) s = v" for s
    using append_take_drop_id [of "length v" s] that by simp
  then show ?thesis
    by (auto simp: consumes_def rx_lit_def split: if_splits)
qed

lemma take_takeWhile_all: "k \<le> length (takeWhile C s) \<Longrightarrow> list_all C (take k s)"
proof (induction s arbitrary: k)
  case Nil
  then show ?case by simp
next
  case (Cons c s)
  then show ?case
    by (cases k) (auto split: if_splits)
qed

lemma consumes_star: "consumes (rx_star C) (list_all C)"
proof -
  have "\<exists>w. s = w @ drop k s \<and> list_all C w" if "k \<le> length (takeWhile C s)" for k s
    using take_takeWhile_all [OF that] append_take_drop_id [of k s] by metis
  then show ?thesis
    by (auto simp: consumes_def rx_star_def)
qed

lemma consumes_plus: "consumes (rx_plus C) (\<lambda>w. w \<noteq> [] \<and> list_all C w)"
proof -
  have "\<exists>w. s = w @ drop k s \<and> w \<noteq> [] \<and> list_all C w"
    if "k \<le> length (takeWhile C s)" and "1 \<le> k" for k s
  proof -
    from that have "take k s \<noteq> []"
      using length_takeWhile_le [of C s] by auto
    with take_takeWhile_all [OF that(1)] append_take_drop_id [of k s] show ?thesis by metis
  qed
  then show ?thesis
    by (auto simp: consumes_def rx_plus_def)
qed

lemma consumes_seq:
  assumes "consumes p L" and "consumes q M"
  shows "consumes (rx_seq p q) (\<lambda>w. \<exists>a b. w = a @ b \<and> L a \<and> M b)"
  unfolding consumes_def
proof (intro allI impI)
  fix gs pos s gs' pos' r
  assume "(gs', pos', r) \<in> set (rx_seq p q (gs, pos, s))"
  then obtain m where m: "m \<in> set (p (gs, pos, s))" and r: "(gs', pos', r) \<in> set (q m)"
    by (auto simp: rx_seq_def)
  obtain g1 p1 s1 where m_eq: "m = (g1, p1, s1)" by (cases m) auto
  from assms(1) m m_eq obtain a where a: "s = a @ s1" "L a"
    unfolding consumes_def by blast
  from assms(2) r m_eq obtain b where b: "s1 = b @ r" "M b"
    unfolding consumes_def by blast
  from a b show "\<exists>w. s = w @ r \<and> (\<exists>a b. w = a @ b \<and> L a \<and> M b)"
    by auto
qed

lemma consumes_alt:
  "consumes p L \<Longrightarrow> consumes q M \<Longrightarrow> consumes (rx_alt p q) (\<lambda>w. L w \<or> M w)"
  unfolding consumes_def rx_alt_def by (simp only: set_append Un_iff) blast

lemma consumes_opt: "consumes p L \<Longrightarrow> consumes (rx_opt p) (\<lambda>w. L w \<or> w = [])"
  unfolding consumes_def rx_opt_def by (simp only: set_append Un_iff) fastforce

lemma consumes_group: "consumes p L \<Longrightarrow> consumes (rx_group p) L"
  unfolding consumes_def rx_group_def by fastforce

lemma consumes_fullmatch:
  assumes "consumes p L" and "fullmatch p s \<noteq> None"
  shows "L s"
proof -
  from assms(2) have "filter (\<lambda>(gs, pos, r). r = []) (p ([], 0, s)) \<noteq> []"
    by (auto simp: fullmatch_def)
  then obtain gs pos where "(gs, pos, []) \<in> set (p ([], 0, s))"
    by (auto simp: filter_empty_conv)
  with assms(1) show ?thesis
    unfolding consumes_def by fastforce
qed

subsection \<open>The patterns on tokens made of endpoints\<close>

lemma str_nat_hd: "\<exists>d ds. str_nat n = d # ds \<and> 48 \<le> d \<and> d \<le> 57"
proof -
  obtain d ds where eq: "str_nat n = d # ds"
    using str_nat_not_Nil [of n] by (cases "str_nat n") auto
  with str_nat_digits [of d n] show ?thesis by simp
qed

lemma endpoint_str_plain [simp]: "plain (endpoint_str e)"
  by (cases e) (simp_all add: ascii_space_def)

lemma range_token_plain [simp]: "plain (range_token e1 e2)"
  by (simp add: range_token_def ascii_space_def)

lemma endpoint_str_not_Nil [simp]: "endpoint_str e \<noteq> []"
  by (cases e) simp_all

lemma no_offset:
  assumes "\<not> (\<exists>d r'. r = 45 # d # r' \<and> C d)"
  shows "rx_seq (rx_lit (u ''-'')) (rx_plus C) (gs, pos, r) = []"
proof (cases r)
  case Nil
  then show ?thesis by (simp add: rx_seq_def rx_lit_def)
next
  case (Cons c r')
  show ?thesis
  proof (cases "c = 45")
    case False
    with Cons show ?thesis by (simp add: rx_seq_def rx_lit_def)
  next
    case True
    with Cons assms have "r' = [] \<or> \<not> C (hd r')"
      by (cases r') auto
    then have "rx_plus C (gs, pos + 1, r') = []"
      by (rule plus_none)
    with Cons True show ?thesis
      by (simp add: rx_seq_def rx_lit_def)
  qed
qed

lemma first_endpoint:
  assumes U: "ascii_compatible U"
    and r: "r = [] \<or> \<not> is_decimal U (hd r)"
    and l: "e = Last \<longrightarrow> \<not> (\<exists>d r'. r = 45 # d # r' \<and> is_decimal U d)"
  shows "first_result (endpoint_rx U) (gs, pos, endpoint_str e @ r)
           (gs, pos + length (endpoint_str e), r)"
proof (cases e)
  case (Num n)
  obtain d ds where d: "str_nat n = d # ds" "48 \<le> d" "d \<le> 57"
    using str_nat_hd [of n] by auto
  then have "take (length (u ''last'')) (str_nat n @ r) \<noteq> u ''last''"
    by auto
  then have "rx_seq (rx_lit (u ''last'')) (rx_opt (rx_seq (rx_lit (u ''-'')) (rx_plus (is_decimal U))))
               (gs, pos, str_nat n @ r) = []"
    by (intro seq_none lit_none)
  moreover have "first_result (rx_plus (is_decimal U)) (gs, pos, str_nat n @ r)
                   (gs, pos + length (str_nat n), r)"
    by (rule first_plus [OF str_nat_all_decimal [OF U] str_nat_not_Nil r])
  ultimately show ?thesis
    unfolding endpoint_rx_def Num endpoint_str.simps by (rule first_alt_right)
next
  case Last
  with l have "rx_seq (rx_lit (u ''-'')) (rx_plus (is_decimal U)) (gs, pos + length (u ''last''), r) = []"
    by (intro no_offset) simp
  then have "first_result (rx_opt (rx_seq (rx_lit (u ''-'')) (rx_plus (is_decimal U))))
               (gs, pos + length (u ''last''), r) (gs, pos + length (u ''last''), r)"
    by (rule first_opt_skip)
  with first_lit [of "u ''last''" gs pos r]
  have "first_result (rx_seq (rx_lit (u ''last'')) (rx_opt (rx_seq (rx_lit (u ''-'')) (rx_plus (is_decimal U)))))
          (gs, pos, u ''last'' @ r) (gs, pos + length (u ''last''), r)"
    by (rule first_seq)
  then show ?thesis
    unfolding endpoint_rx_def Last endpoint_str.simps by (rule first_alt_left)
next
  case (LastMinus k)
  have a: "first_result (rx_lit (u ''last'')) (gs, pos, u ''last'' @ (u ''-'' @ (str_nat k @ r)))
             (gs, pos + length (u ''last''), u ''-'' @ (str_nat k @ r))"
    by (rule first_lit)
  have b: "first_result (rx_lit (u ''-'')) (gs, pos + length (u ''last''), u ''-'' @ (str_nat k @ r))
             (gs, pos + length (u ''last'') + length (u ''-''), str_nat k @ r)"
    by (rule first_lit)
  have c: "first_result (rx_plus (is_decimal U))
             (gs, pos + length (u ''last'') + length (u ''-''), str_nat k @ r)
             (gs, pos + length (u ''last'') + length (u ''-'') + length (str_nat k), r)"
    by (rule first_plus [OF str_nat_all_decimal [OF U] str_nat_not_Nil r])
  have "first_result (endpoint_rx U) (gs, pos, u ''last'' @ (u ''-'' @ (str_nat k @ r)))
          (gs, pos + length (u ''last'') + length (u ''-'') + length (str_nat k), r)"
    unfolding endpoint_rx_def
    by (rule first_alt_left [OF first_seq [OF a first_opt [OF first_seq [OF b c]]]])
  then show ?thesis
    by (simp add: LastMinus)
qed

lemma first_group_endpoint:
  assumes U: "ascii_compatible U"
    and r: "r = [] \<or> \<not> is_decimal U (hd r)"
    and l: "e = Last \<longrightarrow> \<not> (\<exists>d r'. r = 45 # d # r' \<and> is_decimal U d)"
  shows "first_result (rx_group (endpoint_rx U)) (gs, pos, endpoint_str e @ r)
           (gs @ [endpoint_str e], pos + length (endpoint_str e), r)"
  using first_group [OF first_endpoint [OF assms, of gs pos]] by simp

lemma endpoint_str_hd:
  "\<exists>d ds. endpoint_str e = d # ds \<and> d < 128 \<and> \<not> ascii_space d \<and> (is_num e \<longleftrightarrow> 48 \<le> d \<and> d \<le> 57)"
proof (cases e)
  case (Num n)
  with str_nat_hd [of n] show ?thesis
    by (auto simp: is_num_def ascii_space_def)
qed (simp_all add: is_num_def ascii_space_def)

lemma fullmatch_range_token:
  assumes U: "ascii_compatible U" and ne: "\<not> (e1 = Last \<and> is_num e2)"
  shows "fullmatch (RANGE_RE U) (range_token e1 e2) = Some [endpoint_str e1, endpoint_str e2]"
proof -
  obtain d ds where d: "endpoint_str e2 = d # ds" "d < 128" "\<not> ascii_space d"
      "is_num e2 \<longleftrightarrow> 48 \<le> d \<and> d \<le> 57"
    using endpoint_str_hd [of e2] by auto
  let ?r1 = "u ''-'' @ endpoint_str e2"
  let ?p1 = "length (endpoint_str e1)"
  have sp0: "first_result (rx_star (cp_isspace U)) ([], 0, endpoint_str e1 @ ?r1)
               ([], 0, endpoint_str e1 @ ?r1)"
  proof (rule first_star_none)
    obtain d1 ds1 where "endpoint_str e1 = d1 # ds1" "d1 < 128" "\<not> ascii_space d1"
      using endpoint_str_hd [of e1] by auto
    then show "endpoint_str e1 @ ?r1 = [] \<or> \<not> cp_isspace U (hd (endpoint_str e1 @ ?r1))"
      using U by (simp add: ac_space)
  qed
  have g1: "first_result (rx_group (endpoint_rx U)) ([], 0, endpoint_str e1 @ ?r1)
              ([] @ [endpoint_str e1], 0 + ?p1, ?r1)"
  proof (rule first_group_endpoint [OF U])
    show "?r1 = [] \<or> \<not> is_decimal U (hd ?r1)"
      using U by (simp add: ac_is_decimal)
    show "e1 = Last \<longrightarrow> \<not> (\<exists>d r'. ?r1 = 45 # d # r' \<and> is_decimal U d)"
      using U ne d by (auto simp: ac_is_decimal)
  qed
  have sp1: "first_result (rx_star (cp_isspace U)) ([] @ [endpoint_str e1], 0 + ?p1, ?r1)
               ([] @ [endpoint_str e1], 0 + ?p1, ?r1)"
    by (rule first_star_none) (use U in \<open>simp add: ac_space ascii_space_def\<close>)
  have dash: "first_result (rx_lit (u ''-'')) ([] @ [endpoint_str e1], 0 + ?p1, ?r1)
                ([] @ [endpoint_str e1], 0 + ?p1 + length (u ''-''), endpoint_str e2)"
    by (rule first_lit)
  have sp2: "first_result (rx_star (cp_isspace U))
               ([] @ [endpoint_str e1], 0 + ?p1 + length (u ''-''), endpoint_str e2)
               ([] @ [endpoint_str e1], 0 + ?p1 + length (u ''-''), endpoint_str e2)"
    by (rule first_star_none) (use U d in \<open>simp add: ac_space\<close>)
  have g2: "first_result (rx_group (endpoint_rx U))
              ([] @ [endpoint_str e1], 0 + ?p1 + length (u ''-''), endpoint_str e2 @ [])
              (([] @ [endpoint_str e1]) @ [endpoint_str e2],
               0 + ?p1 + length (u ''-'') + length (endpoint_str e2), [])"
    by (rule first_group_endpoint [OF U]) simp_all
  have sp3: "first_result (rx_star (cp_isspace U))
              (([] @ [endpoint_str e1]) @ [endpoint_str e2],
               0 + ?p1 + length (u ''-'') + length (endpoint_str e2), [])
              (([] @ [endpoint_str e1]) @ [endpoint_str e2],
               0 + ?p1 + length (u ''-'') + length (endpoint_str e2), [])"
    by (rule first_star_none) simp
  have "first_result (RANGE_RE U) ([], 0, endpoint_str e1 @ ?r1)
          (([] @ [endpoint_str e1]) @ [endpoint_str e2],
           0 + ?p1 + length (u ''-'') + length (endpoint_str e2), [])"
    unfolding RANGE_RE_def
    by (rule first_seq [OF first_bol first_seq [OF sp0 first_seq [OF g1 first_seq [OF sp1
          first_seq [OF dash first_seq [OF sp2 first_seq [OF g2 [simplified append_Nil2]
          first_seq [OF sp3 first_eol]]]]]]]])
  from first_fullmatch [OF this] show ?thesis
    by (simp add: range_token_def)
qed

lemmas rx_defs = rx_bol_def rx_eol_def rx_lit_def rx_star_def rx_plus_def rx_seq_def rx_alt_def
  rx_opt_def rx_group_def fullmatch_def endpoint_rx_def RANGE_RE_def SINGLE_RE_def

lemma consumes_mono: "consumes p L \<Longrightarrow> (\<And>w. L w \<Longrightarrow> M w) \<Longrightarrow> consumes p M"
  unfolding consumes_def by blast

lemma consumes_endpoint: "consumes (endpoint_rx U) (endpoint_lang U)"
  unfolding endpoint_rx_def
  by (rule consumes_mono [OF consumes_alt [OF consumes_seq [OF consumes_lit
        consumes_opt [OF consumes_seq [OF consumes_lit consumes_plus]]] consumes_plus]])
     (auto simp: endpoint_lang_def)

lemma consumes_single:
  "consumes (SINGLE_RE U)
     (\<lambda>s. \<exists>w1 core w2. s = w1 @ core @ w2 \<and> list_all (cp_isspace U) w1 \<and>
        list_all (cp_isspace U) w2 \<and> (endpoint_lang U core \<or> core = u ''all''))"
  unfolding SINGLE_RE_def
  by (rule consumes_mono [OF consumes_seq [OF consumes_bol consumes_seq [OF consumes_star
        consumes_seq [OF consumes_group [OF consumes_alt [OF consumes_endpoint consumes_lit]]
        consumes_seq [OF consumes_star consumes_eol]]]]])
     auto

lemma plain_no_space:
  assumes U: "ascii_compatible U" and "plain w" and "list_all (cp_isspace U) w"
  shows "w = []"
proof (cases w)
  case (Cons c cs)
  with assms show ?thesis by (simp add: ac_space)
qed simp

lemma single_plain:
  assumes U: "ascii_compatible U" and s: "plain s" and m: "fullmatch (SINGLE_RE U) s \<noteq> None"
  shows "endpoint_lang U s \<or> s = u ''all''"
proof -
  from consumes_fullmatch [OF consumes_single m]
  obtain w1 core w2 where eq: "s = w1 @ core @ w2"
    and w: "list_all (cp_isspace U) w1" "list_all (cp_isspace U) w2"
    and core: "endpoint_lang U core \<or> core = u ''all''"
    by blast
  from s eq have "plain w1" "plain w2" by simp_all
  with w U have "w1 = []" "w2 = []"
    by (auto intro: plain_no_space)
  with eq core show ?thesis by simp
qed

lemma hyphen_in_range_token: "45 \<in> set (range_token e1 e2)"
  by (simp add: range_token_def)

lemma hyphen_not_decimal: "ascii_compatible U \<Longrightarrow> list_all (is_decimal U) ds \<Longrightarrow> 45 \<notin> set ds"
  by (auto simp: list_all_iff ac_is_decimal)

lemma single_range_token:
  assumes U: "ascii_compatible U" and ne: "\<not> (e1 = Last \<and> is_num e2)"
  shows "fullmatch (SINGLE_RE U) (range_token e1 e2) = None"
proof (rule ccontr)
  assume "fullmatch (SINGLE_RE U) (range_token e1 e2) \<noteq> None"
  from single_plain [OF U range_token_plain this]
  consider "range_token e1 e2 = u ''all''" | "range_token e1 e2 = u ''last''"
    | ds where "list_all (is_decimal U) ds" "range_token e1 e2 = ds"
    | ds where "list_all (is_decimal U) ds" "range_token e1 e2 = u ''last-'' @ ds"
    by (auto simp: endpoint_lang_def)
  then show False
  proof cases
    case 1
    with hyphen_in_range_token [of e1 e2] show False by simp
  next
    case 2
    with hyphen_in_range_token [of e1 e2] show False by simp
  next
    case 3
    with hyphen_in_range_token [of e1 e2] hyphen_not_decimal [OF U, of ds] show False by simp
  next
    case 4
    note ds = hyphen_not_decimal [OF U 4(1)]
    show False
    proof (cases e1)
      case (Num n)
      with 4(2) str_nat_hd [of n] show False
        by (auto simp: range_token_def)
    next
      case Last
      with 4(2) have eq: "endpoint_str e2 = ds"
        by (simp add: range_token_def)
      show False
      proof (cases e2)
        case (Num n)
        with Last ne show False by (simp add: is_num_def)
      next
        case Last
        with eq 4(1) U show False by (auto simp: ac_is_decimal)
      next
        case (LastMinus k)
        with eq 4(1) U show False by (auto simp: ac_is_decimal)
      qed
    next
      case (LastMinus k)
      with 4(2) have "ds = str_nat k @ u ''-'' @ endpoint_str e2"
        by (simp add: range_token_def)
      with ds show False by simp
    qed
  qed
qed

text \<open>A single token matches the single pattern.\<close>

lemma fullmatch_single_endpoint:
  assumes U: "ascii_compatible U"
  shows "fullmatch (SINGLE_RE U) (endpoint_str e) = Some [endpoint_str e]"
proof -
  obtain d ds where d: "endpoint_str e = d # ds" "d < 128" "\<not> ascii_space d"
    using endpoint_str_hd [of e] by auto
  have sp0: "first_result (rx_star (cp_isspace U)) ([], 0, endpoint_str e) ([], 0, endpoint_str e)"
    by (rule first_star_none) (use U d in \<open>simp add: ac_space\<close>)
  have "first_result (endpoint_rx U) ([], 0, endpoint_str e @ []) ([], 0 + length (endpoint_str e), [])"
    by (rule first_endpoint [OF U]) simp_all
  then have "first_result (rx_alt (endpoint_rx U) (rx_lit (u ''all''))) ([], 0, endpoint_str e)
               ([], 0 + length (endpoint_str e), [])"
    by (intro first_alt_left) simp
  from first_group [OF this]
  have g: "first_result (rx_group (rx_alt (endpoint_rx U) (rx_lit (u ''all'')))) ([], 0, endpoint_str e)
             ([endpoint_str e], 0 + length (endpoint_str e), [])"
    by simp
  have sp1: "first_result (rx_star (cp_isspace U)) ([endpoint_str e], 0 + length (endpoint_str e), [])
               ([endpoint_str e], 0 + length (endpoint_str e), [])"
    by (rule first_star_none) simp
  have "first_result (SINGLE_RE U) ([], 0, endpoint_str e)
          ([endpoint_str e], 0 + length (endpoint_str e), [])"
    unfolding SINGLE_RE_def
    by (rule first_seq [OF first_bol first_seq [OF sp0 first_seq [OF g first_seq [OF sp1 first_eol]]]])
  then show ?thesis by (rule first_fullmatch)
qed

lemma fullmatch_single_all:
  "ascii_compatible U \<Longrightarrow> fullmatch (SINGLE_RE U) (u ''all'') = Some [u ''all'']"
  by (simp add: rx_defs ac_space ac_is_decimal ascii_space_def)

subsection \<open>The two token parsers on well-formed tokens\<close>

lemma str_nat_not_keyword:
  "str_nat n \<noteq> u ''all''" "str_nat n \<noteq> u ''last''" "\<not> startswith (str_nat n) (u ''last-'')"
  using str_nat_hd [of n] by (auto simp: startswith_def)

lemma parse_one_token_num:
  assumes U: "ascii_compatible U"
  shows "parse_one_token U (str_nat n) P =
           (if 1 \<le> int n \<and> int n \<le> P then Inr (int n - 1) else Inl (PageOutOfRange (str_nat n)))"
  using U str_nat_not_keyword [of n]
  by (simp add: parse_one_token_def plain_strip plain_lower str_nat_isdigit py_int_str_nat Let_def)

lemma split_dash_1_last: "split_dash_1 (u ''last-'' @ s) = s"
  by (simp add: split_dash_1_def)

lemma parse_one_token_last:
  assumes U: "ascii_compatible U"
  shows "parse_one_token U (u ''last'') P = Inr (P - 1)"
  using U plain_strip [OF U, of "u ''last''"] plain_lower [OF U, of "u ''last''"]
  by (simp add: parse_one_token_def ascii_space_def)

lemma parse_one_token_all:
  assumes U: "ascii_compatible U"
  shows "parse_one_token U (u ''all'') P = Inr (- 2)"
  using U plain_strip [OF U, of "u ''all''"] plain_lower [OF U, of "u ''all''"]
  by (simp add: parse_one_token_def ascii_space_def)

lemma parse_one_token_last_minus:
  assumes U: "ascii_compatible U"
  shows "parse_one_token U (u ''last-'' @ str_nat k) P =
           (if 0 \<le> P - 1 - int k \<and> P - 1 - int k < P then Inr (P - 1 - int k)
            else Inl (PageOutOfRange (u ''last-'' @ str_nat k)))"
proof -
  have p: "plain (u ''last-'' @ str_nat k)"
    by (simp add: ascii_space_def)
  have "startswith (u ''last-'' @ str_nat k) (u ''last-'')"
    by (simp add: startswith_def)
  moreover have "u ''last-'' @ str_nat k \<noteq> u ''all''" "u ''last-'' @ str_nat k \<noteq> u ''last''"
    by simp_all
  ultimately show ?thesis
    using U split_dash_1_last [of "str_nat k"] plain_strip [OF U p] plain_lower [OF U p]
    by (simp add: parse_one_token_def str_nat_isdigit py_int_str_nat Let_def)
qed

lemma parse_endpoint_num:
  assumes U: "ascii_compatible U"
  shows "parse_endpoint U (str_nat n) P =
           (if 1 \<le> int n \<and> int n \<le> P then Inr (int n) else Inl (EndpointOutOfRange (str_nat n)))"
  using U str_nat_not_keyword [of n]
  by (simp add: parse_endpoint_def plain_strip plain_lower str_nat_isdigit py_int_str_nat Let_def)

lemma parse_endpoint_last:
  assumes U: "ascii_compatible U"
  shows "parse_endpoint U (u ''last'') P = Inr P"
  using U plain_strip [OF U, of "u ''last''"] plain_lower [OF U, of "u ''last''"]
  by (simp add: parse_endpoint_def ascii_space_def)

lemma parse_endpoint_all:
  assumes U: "ascii_compatible U"
  shows "parse_endpoint U (u ''all'') P = Inr P"
  using U plain_strip [OF U, of "u ''all''"] plain_lower [OF U, of "u ''all''"]
  by (simp add: parse_endpoint_def ascii_space_def)

lemma parse_endpoint_last_minus:
  assumes U: "ascii_compatible U"
  shows "parse_endpoint U (u ''last-'' @ str_nat k) P =
           (if 1 \<le> P - int k \<and> P - int k \<le> P then Inr (P - int k)
            else Inl (EndpointOutOfRange (u ''last-'' @ str_nat k)))"
proof -
  have p: "plain (u ''last-'' @ str_nat k)"
    by (simp add: ascii_space_def)
  have "startswith (u ''last-'' @ str_nat k) (u ''last-'')"
    by (simp add: startswith_def)
  moreover have "u ''last-'' @ str_nat k \<noteq> u ''all''" "u ''last-'' @ str_nat k \<noteq> u ''last''"
    by simp_all
  ultimately show ?thesis
    using U split_dash_1_last [of "str_nat k"] plain_strip [OF U p] plain_lower [OF U p]
    by (simp add: parse_endpoint_def str_nat_isdigit py_int_str_nat Let_def)
qed

subsection \<open>An argument of one token\<close>

lemma sorted_set_py_range: "sorted_list_of_set (set (py_range a b)) = py_range a b"
  unfolding py_range_def by (rule sorted_list_of_set.idem_if_sorted_distinct) simp_all

lemma sorted_set_single: "sorted_list_of_set (set [x]) = [x]"
  by simp

lemma one_token_arg:
  assumes U: "ascii_compatible U" and p: "plain tok" and ne: "tok \<noteq> []" and c: "44 \<notin> set tok"
  shows "parse_pages_arg U tok P =
           (case pages_loop U P [tok] ([], False) of
              Inl e \<Rightarrow> Inl e
            | Inr (wanted, any_tok) \<Rightarrow>
                if \<not> any_tok then Inl (EmptyAfterParsing tok)
                else if sorted_list_of_set (set wanted) = [] then Inl (NoValidPages tok)
                else Inr (Some (sorted_list_of_set (set wanted))))"
  using ne by (simp add: parse_pages_arg_def plain_DASHES [OF p] split_comma_single [OF c] Let_def
      del: pages_loop.simps split: sum.split prod.split)

lemma single_token_arg:
  assumes U: "ascii_compatible U" and p: "plain tok" and ne: "tok \<noteq> []" and c: "44 \<notin> set tok"
    and m: "fullmatch (SINGLE_RE U) tok \<noteq> None"
  shows "parse_pages_arg U tok P =
           (case parse_one_token U tok P of
              Inl e \<Rightarrow> Inl e
            | Inr idx \<Rightarrow>
                if idx = - 2 then (if 1 \<le> P then Inr (Some (py_range 0 P)) else Inl (NoValidPages tok))
                else Inr (Some [idx]))"
proof -
  have "py_range 0 P = [] \<longleftrightarrow> \<not> 1 \<le> P"
    by (auto simp: py_range_def)
  then show ?thesis
    using ne m
    by (simp add: one_token_arg [OF U p ne c] plain_strip [OF U p] plain_lower [OF U p]
        sorted_set_py_range split: sum.split)
qed

lemma range_token_arg:
  assumes U: "ascii_compatible U" and p: "plain tok" and ne: "tok \<noteq> []" and c: "44 \<notin> set tok"
    and s: "fullmatch (SINGLE_RE U) tok = None"
    and r: "fullmatch (RANGE_RE U) tok = Some [a_str, b_str]"
  shows "parse_pages_arg U tok P =
           (case parse_endpoint U a_str P of
              Inl e \<Rightarrow> Inl e
            | Inr a \<Rightarrow>
                (case parse_endpoint U b_str P of
                   Inl e \<Rightarrow> Inl e
                 | Inr b \<Rightarrow> Inr (Some (py_range (min a b - 1) (max a b)))))"
proof -
  have "py_range (a - 1) b \<noteq> []" if "a \<le> b" for a b :: int
    using that by (simp add: py_range_def)
  then have "py_range (min a b - 1) (max a b) \<noteq> []" for a b :: int
    by simp
  moreover have "(if a > b then (b, a) else (a, b)) = (min a b, max a b)" for a b :: int
    by auto
  ultimately show ?thesis
    using ne s r
    by (simp add: one_token_arg [OF U p ne c] plain_strip [OF U p] plain_lower [OF U p]
        sorted_set_py_range split: sum.split)
qed

lemma invalid_token_arg:
  assumes U: "ascii_compatible U" and p: "plain tok" and ne: "tok \<noteq> []" and c: "44 \<notin> set tok"
    and s: "fullmatch (SINGLE_RE U) tok = None"
    and r: "fullmatch (RANGE_RE U) tok = None"
  shows "parse_pages_arg U tok P = Inl (InvalidToken tok)"
  using ne s r
  by (simp add: one_token_arg [OF U p ne c] plain_strip [OF U p] plain_lower [OF U p])

lemma endpoint_str_no_comma: "44 \<notin> set (endpoint_str e)"
proof (cases e)
  case (Num n)
  with str_nat_digits [of 44 n] show ?thesis by auto
next
  case (LastMinus k)
  with str_nat_digits [of 44 k] show ?thesis by auto
qed simp

lemma range_token_no_comma: "44 \<notin> set (range_token e1 e2)"
  using endpoint_str_no_comma [of e1] endpoint_str_no_comma [of e2]
  by (simp add: range_token_def)

lemma range_token_not_Nil: "range_token e1 e2 \<noteq> []"
  by (simp add: range_token_def)

lemma endpoint_arg:
  assumes U: "ascii_compatible U"
  shows "parse_pages_arg U (endpoint_str e) P =
           (case parse_one_token U (endpoint_str e) P of
              Inl e \<Rightarrow> Inl e
            | Inr idx \<Rightarrow>
                if idx = - 2 then (if 1 \<le> P then Inr (Some (py_range 0 P)) else Inl (NoValidPages (endpoint_str e)))
                else Inr (Some [idx]))"
  by (rule single_token_arg [OF U endpoint_str_plain endpoint_str_not_Nil endpoint_str_no_comma])
     (simp add: fullmatch_single_endpoint [OF U])

lemma range_arg:
  assumes U: "ascii_compatible U" and ne: "\<not> (e1 = Last \<and> is_num e2)"
  shows "parse_pages_arg U (range_token e1 e2) P =
           (case parse_endpoint U (endpoint_str e1) P of
              Inl e \<Rightarrow> Inl e
            | Inr a \<Rightarrow>
                (case parse_endpoint U (endpoint_str e2) P of
                   Inl e \<Rightarrow> Inl e
                 | Inr b \<Rightarrow> Inr (Some (py_range (min a b - 1) (max a b)))))"
  by (rule range_token_arg [OF U range_token_plain range_token_not_Nil range_token_no_comma
        single_range_token [OF U ne] fullmatch_range_token [OF U ne]])

lemma str_nat_small: "n < 10 \<Longrightarrow> str_nat n = [48 + n]"
  by (subst str_nat.simps) simp

lemma py_str_nat: "0 \<le> i \<Longrightarrow> py_str i = str_nat (nat i)"
  by (simp add: py_str_def)

subsection \<open>Every page of a result is a page of the document\<close>

lemma parse_one_token_bounds:
  "parse_one_token U tok P = Inr idx \<Longrightarrow> 1 \<le> P \<Longrightarrow> idx = - 2 \<or> (0 \<le> idx \<and> idx < P)"
  by (auto simp: parse_one_token_def Let_def split: if_splits sum.splits)

lemma parse_endpoint_bounds:
  "parse_endpoint U val P = Inr a \<Longrightarrow> 1 \<le> P \<Longrightarrow> 1 \<le> a \<and> a \<le> P"
  by (auto simp: parse_endpoint_def Let_def split: if_splits sum.splits)

lemma py_range_set: "set (py_range a b) = {a..<b}"
  by (auto simp: py_range_def)

lemma pages_loop_bounds:
  assumes "pages_loop U P segs (wanted, any_tok) = Inr (wanted', any_tok')"
    and "1 \<le> P" and "\<forall>x\<in>set wanted. 0 \<le> x \<and> x < P"
  shows "\<forall>x\<in>set wanted'. 0 \<le> x \<and> x < P"
  using assms
proof (induction segs arbitrary: wanted any_tok)
  case Nil
  then show ?case by simp
next
  case (Cons raw rest)
  show ?case
  proof (cases "strip U raw = []")
    case True
    with Cons.prems Cons.IH [of wanted any_tok] show ?thesis by simp
  next
    case tok: False
    show ?thesis
    proof (cases "fullmatch (SINGLE_RE U) (str_lower U (strip U raw)) \<noteq> None")
      case True
      with tok Cons.prems(1) obtain idx where idx: "parse_one_token U (strip U raw) P = Inr idx"
        and loop: "pages_loop U P rest
              (if idx = - 2 then wanted @ py_range 0 P else wanted @ [idx], True) = Inr (wanted', any_tok')"
        by (auto simp: Let_def split: sum.splits if_splits)
      from parse_one_token_bounds [OF idx Cons.prems(2)] Cons.prems(3)
      have "\<forall>x\<in>set (if idx = - 2 then wanted @ py_range 0 P else wanted @ [idx]). 0 \<le> x \<and> x < P"
        by (auto simp: py_range_set)
      from Cons.IH [OF loop Cons.prems(2) this] show ?thesis .
    next
      case False
      with tok Cons.prems(1) obtain a_str b_str a b
        where a: "parse_endpoint U a_str P = Inr a" and b: "parse_endpoint U b_str P = Inr b"
          and loop: "pages_loop U P rest (wanted @ py_range (min a b - 1) (max a b), True)
                       = Inr (wanted', any_tok')"
        by (auto simp: Let_def min_def max_def split: sum.splits if_splits option.splits list.splits)
      from parse_endpoint_bounds [OF a Cons.prems(2)] parse_endpoint_bounds [OF b Cons.prems(2)]
        Cons.prems(3)
      have "\<forall>x\<in>set (wanted @ py_range (min a b - 1) (max a b)). 0 \<le> x \<and> x < P"
        by (auto simp: py_range_set)
      from Cons.IH [OF loop Cons.prems(2) this] show ?thesis .
    qed
  qed
qed

subsection \<open>One step of the loop on a well-formed token\<close>

lemma loop_step_endpoint:
  assumes U: "ascii_compatible U" and idx: "parse_one_token U (endpoint_str e) P = Inr idx"
    and n: "idx \<noteq> - 2"
  shows "pages_loop U P (endpoint_str e # rest) (wanted, any_tok) =
           pages_loop U P rest (wanted @ [idx], True)"
  using idx n fullmatch_single_endpoint [OF U, of e]
  by (simp add: plain_strip [OF U endpoint_str_plain] plain_lower [OF U endpoint_str_plain])

lemma loop_step_range:
  assumes U: "ascii_compatible U" and ne: "\<not> (e1 = Last \<and> is_num e2)"
    and a: "parse_endpoint U (endpoint_str e1) P = Inr a"
    and b: "parse_endpoint U (endpoint_str e2) P = Inr b"
  shows "pages_loop U P (range_token e1 e2 # rest) (wanted, any_tok) =
           pages_loop U P rest (wanted @ py_range (min a b - 1) (max a b), True)"
proof -
  have "(if a > b then (b, a) else (a, b)) = (min a b, max a b)"
    by auto
  then show ?thesis
    using a b single_range_token [OF U ne] fullmatch_range_token [OF U ne] range_token_not_Nil [of e1 e2]
    by (simp add: plain_strip [OF U range_token_plain] plain_lower [OF U range_token_plain])
qed

lemma mixed_example:
  assumes U: "ascii_compatible U"
  shows "parse_pages_arg U (u ''1-2,last-1,last'') 10 = Inr (Some [0, 1, 8, 9])"
proof -
  have s: "split_comma (map DASHES (u ''1-2,last-1,last'')) =
             [range_token (Num 1) (Num 2), endpoint_str (LastMinus 1), endpoint_str Last]"
    by (simp add: DASHES_def range_token_def str_nat_small)
  have "pages_loop U 10 [range_token (Num 1) (Num 2), endpoint_str (LastMinus 1), endpoint_str Last]
          ([], False) =
        pages_loop U 10 [endpoint_str (LastMinus 1), endpoint_str Last] ([] @ py_range (min 1 2 - 1) (max 1 2), True)"
    by (rule loop_step_range [OF U]) (simp_all add: is_num_def parse_endpoint_num [OF U])
  also have "\<dots> = pages_loop U 10 [endpoint_str Last] (([] @ py_range (min 1 2 - 1) (max 1 2)) @ [8], True)"
    by (rule loop_step_endpoint [OF U]) (use parse_one_token_last_minus [OF U, of 1 10] in simp_all)
  also have "\<dots> = pages_loop U 10 [] ((([] @ py_range (min 1 2 - 1) (max 1 2)) @ [8]) @ [9], True)"
    by (rule loop_step_endpoint [OF U]) (use parse_one_token_last [OF U, of 10] in simp_all)
  also have "\<dots> = Inr ([0, 1, 8, 9], True)"
    by (simp add: py_range_def upto.simps)
  finally have l: "pages_loop U 10 (split_comma (map DASHES (u ''1-2,last-1,last''))) ([], False) =
      Inr ([0, 1, 8, 9], True)"
    unfolding s .
  have "sorted_list_of_set (set [0, 1, 8, 9 :: int]) = [0, 1, 8, 9]"
    by (rule sorted_list_of_set.idem_if_sorted_distinct) simp_all
  then show ?thesis
    unfolding parse_pages_arg_def Let_def l by simp
qed

lemma blank_segments:
  "\<forall>seg\<in>set segs. strip U seg = [] \<Longrightarrow> pages_loop U P segs st = Inr st"
proof (induction segs)
  case Nil
  then show ?case by simp
next
  case (Cons raw rest)
  then show ?case by (cases st) simp
qed

section \<open>Properties of the page selector and of the text of a page\<close>

subsection \<open>The resolved page set\<close>

text \<open>
  Claim C1. For every argument and every page count \<open>P \<ge> 1\<close>, a list that
  \<^verbatim>\<open>parse_pages_arg\<close> returns is strictly ascending, free of duplicates and not empty, and
  each of its elements lies between \<open>0\<close> and \<open>P - 1\<close>. The argument
  \<^verbatim>\<open>1-2,last-1,last\<close> gives \<open>[0, 1, 8, 9]\<close> for ten pages.
\<close>

theorem resolved_pages_invariant:
  "(1 \<le> P \<and> parse_pages_arg U pages_arg P = Inr (Some res) \<longrightarrow>
      sorted_wrt (<) res \<and> distinct res \<and> res \<noteq> [] \<and> (\<forall>x\<in>set res. 0 \<le> x \<and> x \<le> P - 1)) \<and>
   (ascii_compatible U \<longrightarrow>
      parse_pages_arg U (u ''1-2,last-1,last'') 10 = Inr (Some [0, 1, 8, 9]))"
proof (rule conjI; rule impI)
  assume "1 \<le> P \<and> parse_pages_arg U pages_arg P = Inr (Some res)"
  then have P: "1 \<le> P" and r: "parse_pages_arg U pages_arg P = Inr (Some res)"
    by simp_all
  from r obtain wanted any_tok
    where loop: "pages_loop U P (split_comma (map DASHES pages_arg)) ([], False) = Inr (wanted, any_tok)"
      and res: "res = sorted_list_of_set (set wanted)" and ne: "res \<noteq> []"
    by (auto simp: parse_pages_arg_def Let_def split: if_splits sum.splits)
  from pages_loop_bounds [OF loop P] have "\<forall>x\<in>set wanted. 0 \<le> x \<and> x < P"
    by simp
  with res have "\<forall>x\<in>set res. 0 \<le> x \<and> x \<le> P - 1"
    by auto
  with res ne show "sorted_wrt (<) res \<and> distinct res \<and> res \<noteq> [] \<and>
      (\<forall>x\<in>set res. 0 \<le> x \<and> x \<le> P - 1)"
    by simp
next
  assume "ascii_compatible U"
  then show "parse_pages_arg U (u ''1-2,last-1,last'') 10 = Inr (Some [0, 1, 8, 9])"
    by (rule mixed_example)
qed

theorem resolved_pages_invariant_witness:
  "ascii_compatible ascii_db \<and> (1::int) \<le> 10 \<and>
   parse_pages_arg ascii_db (u ''1-2,last-1,last'') 10 = Inr (Some [0, 1, 8, 9]) \<and>
   sorted_wrt (<) [0, 1, 8, 9 :: int] \<and> distinct [0, 1, 8, 9 :: int] \<and> [0, 1, 8, 9 :: int] \<noteq> [] \<and>
   list_all (\<lambda>x. 0 \<le> x \<and> x \<le> 10 - 1) [0, 1, 8, 9 :: int]"
proof -
  from resolved_pages_invariant [of 10 ascii_db "u ''1-2,last-1,last''" "[0, 1, 8, 9]"]
    ascii_db_compatible
  have e: "parse_pages_arg ascii_db (u ''1-2,last-1,last'') 10 = Inr (Some [0, 1, 8, 9])"
    by blast
  with resolved_pages_invariant [of 10 ascii_db "u ''1-2,last-1,last''" "[0, 1, 8, 9]"]
    ascii_db_compatible
  show ?thesis by simp
qed

subsection \<open>Whole documents\<close>

text \<open>
  Claim C2. For every page count \<open>P \<ge> 1\<close>, the arguments \<^verbatim>\<open>all\<close> and \<^verbatim>\<open>1-last\<close> both
  give the full list of the indices \<open>0, \<dots>, P - 1\<close>.
\<close>

theorem all_pages:
  "ascii_compatible U \<and> 1 \<le> P \<longrightarrow>
     parse_pages_arg U (u ''all'') P = Inr (Some [0..P - 1]) \<and>
     parse_pages_arg U (u ''1-last'') P = Inr (Some [0..P - 1])"
proof (intro impI, elim conjE)
  assume U: "ascii_compatible U" and P: "1 \<le> P"
  have "parse_pages_arg U (u ''all'') P =
          (case parse_one_token U (u ''all'') P of
              Inl e \<Rightarrow> Inl e
            | Inr idx \<Rightarrow>
                if idx = - 2 then (if 1 \<le> P then Inr (Some (py_range 0 P)) else Inl (NoValidPages (u ''all'')))
                else Inr (Some [idx]))"
    by (rule single_token_arg [OF U])
       (use fullmatch_single_all [OF U] in \<open>simp_all add: ascii_space_def\<close>)
  with P parse_one_token_all [OF U, of P]
  have a: "parse_pages_arg U (u ''all'') P = Inr (Some [0..P - 1])"
    by (simp add: py_range_def)
  have "u ''1-last'' = range_token (Num 1) Last"
    by (simp add: range_token_def str_nat_small)
  with range_arg [OF U, of "Num 1" Last P] P
  have "parse_pages_arg U (u ''1-last'') P = Inr (Some [0..P - 1])"
    using parse_endpoint_num [OF U, of 1 P] parse_endpoint_last [OF U, of P]
    by (simp add: py_range_def)
  with a show "parse_pages_arg U (u ''all'') P = Inr (Some [0..P - 1]) \<and>
     parse_pages_arg U (u ''1-last'') P = Inr (Some [0..P - 1])" by simp
qed

theorem all_pages_witness:
  "ascii_compatible ascii_db \<and> (1::int) \<le> 3 \<and>
   parse_pages_arg ascii_db (u ''all'') 3 = Inr (Some [0, 1, 2]) \<and>
   parse_pages_arg ascii_db (u ''1-last'') 3 = Inr (Some [0, 1, 2])"
proof -
  have "[0..3 - 1] = [0, 1, (2::int)]"
    by (simp add: upto.simps)
  with all_pages [of ascii_db 3] ascii_db_compatible show ?thesis by simp
qed

subsection \<open>Single tokens\<close>

text \<open>
  Claim C3. For every page count \<open>P \<ge> 1\<close>, the arguments \<^verbatim>\<open>last\<close>, \<^verbatim>\<open>str(P)\<close> and
  \<^verbatim>\<open>last-0\<close> all give the one-element list \<open>[P - 1]\<close>, and \<^verbatim>\<open>last-K\<close> gives
  \<open>[P - 1 - K]\<close> whenever \<open>0 \<le> K \<le> P - 1\<close>.
\<close>

theorem last_page:
  "ascii_compatible U \<and> 1 \<le> P \<longrightarrow>
     parse_pages_arg U (u ''last'') P = Inr (Some [P - 1]) \<and>
     parse_pages_arg U (py_str P) P = Inr (Some [P - 1]) \<and>
     parse_pages_arg U (u ''last-0'') P = Inr (Some [P - 1]) \<and>
     (\<forall>K. 0 \<le> K \<and> K \<le> P - 1 \<longrightarrow>
        parse_pages_arg U (u ''last-'' @ py_str K) P = Inr (Some [P - 1 - K]))"
proof (intro impI, elim conjE)
  assume U: "ascii_compatible U" and P: "1 \<le> P"
  have a: "parse_pages_arg U (u ''last'') P = Inr (Some [P - 1])"
    using endpoint_arg [OF U, of Last P] P parse_one_token_last [OF U, of P] by simp
  have b: "parse_pages_arg U (py_str P) P = Inr (Some [P - 1])"
    using endpoint_arg [OF U, of "Num (nat P)" P] P
    by (simp add: parse_one_token_num [OF U] py_str_nat)
  have d: "parse_pages_arg U (u ''last-'' @ py_str K) P = Inr (Some [P - 1 - K])"
    if "0 \<le> K" "K \<le> P - 1" for K
    using endpoint_arg [OF U, of "LastMinus (nat K)" P] that
      parse_one_token_last_minus [OF U, of "nat K" P]
    by (simp add: py_str_nat)
  from d [of 0] P have c: "parse_pages_arg U (u ''last-0'') P = Inr (Some [P - 1])"
    by (simp add: py_str_nat str_nat_small)
  from a b c d show "parse_pages_arg U (u ''last'') P = Inr (Some [P - 1]) \<and>
     parse_pages_arg U (py_str P) P = Inr (Some [P - 1]) \<and>
     parse_pages_arg U (u ''last-0'') P = Inr (Some [P - 1]) \<and>
     (\<forall>K. 0 \<le> K \<and> K \<le> P - 1 \<longrightarrow>
        parse_pages_arg U (u ''last-'' @ py_str K) P = Inr (Some [P - 1 - K]))"
    by blast
qed

theorem last_page_witness:
  "ascii_compatible ascii_db \<and> (1::int) \<le> 12 \<and>
   parse_pages_arg ascii_db (u ''last'') 12 = Inr (Some [11]) \<and>
   parse_pages_arg ascii_db (u ''12'') 12 = Inr (Some [11]) \<and>
   parse_pages_arg ascii_db (u ''last-0'') 12 = Inr (Some [11]) \<and>
   (0::int) \<le> 3 \<and> (3::int) \<le> 12 - 1 \<and>
   parse_pages_arg ascii_db (u ''last-3'') 12 = Inr (Some [8])"
proof -
  have s: "py_str 12 = u ''12''" "py_str 3 = u ''3''"
    by (simp_all add: py_str_def str_nat.simps)
  from last_page [of ascii_db 12] ascii_db_compatible
  have t: "parse_pages_arg ascii_db (u ''last'') 12 = Inr (Some [12 - 1]) \<and>
     parse_pages_arg ascii_db (py_str 12) 12 = Inr (Some [12 - 1]) \<and>
     parse_pages_arg ascii_db (u ''last-0'') 12 = Inr (Some [12 - 1]) \<and>
     (\<forall>K. 0 \<le> K \<and> K \<le> 12 - 1 \<longrightarrow>
        parse_pages_arg ascii_db (u ''last-'' @ py_str K) 12 = Inr (Some [12 - 1 - K]))"
    by simp
  then have "0 \<le> (3::int) \<and> (3::int) \<le> 12 - 1 \<longrightarrow>
        parse_pages_arg ascii_db (u ''last-'' @ py_str 3) 12 = Inr (Some [12 - 1 - 3])"
    by blast
  with t s ascii_db_compatible show ?thesis by simp
qed

subsection \<open>Ranges\<close>

text \<open>
  Swapping the endpoints of a range does not always give the same pages: \<^verbatim>\<open>2-last\<close> is
  the range from page 2 to the last page, but \<^verbatim>\<open>last-2\<close> is tried against the single
  pattern first, matches it, and is the one page two before the last.
\<close>

theorem range_swap_counterexample:
  "parse_pages_arg ascii_db (u ''2-last'') 5 = Inr (Some [1, 2, 3, 4]) \<and>
   parse_pages_arg ascii_db (u ''last-2'') 5 = Inr (Some [2])"
proof -
  have U: "ascii_compatible ascii_db"
    by (rule ascii_db_compatible)
  have "u ''2-last'' = range_token (Num 2) Last"
    by (simp add: range_token_def str_nat_small)
  with range_arg [OF U, of "Num 2" Last 5]
    parse_endpoint_num [OF U, of 2 5] parse_endpoint_last [OF U, of 5]
  have a: "parse_pages_arg ascii_db (u ''2-last'') 5 = Inr (Some [1, 2, 3, 4])"
    by (simp add: py_range_def upto.simps)
  have "u ''last-2'' = endpoint_str (LastMinus 2)"
    by (simp add: str_nat_small)
  with endpoint_arg [OF U, of "LastMinus 2" 5] parse_one_token_last_minus [OF U, of 2 5]
  have "parse_pages_arg ascii_db (u ''last-2'') 5 = Inr (Some [2])"
    by simp
  with a show ?thesis by simp
qed

text \<open>
  Claim C4, amended. Let two endpoints be written as \<^verbatim>\<open>N\<close>, \<^verbatim>\<open>last\<close> or \<^verbatim>\<open>last-K\<close>
  and resolve to the page numbers \<open>a\<close> and \<open>b\<close>. Unless one of them is \<^verbatim>\<open>last\<close> and the
  other a page number, the range token gives the same pages in either order of its
  endpoints, the indices from \<open>min a b - 1\<close> to \<open>max a b - 1\<close>. For every page count
  \<open>P \<ge> 5\<close>, \<^verbatim>\<open>2-5\<close> and \<^verbatim>\<open>5-2\<close> both give \<open>[1, 2, 3, 4]\<close>. The text made of
  \<^verbatim>\<open>last\<close>, a hyphen and a page number \<open>n \<le> P - 1\<close> is the single token for the page
  \<open>n\<close> before the last.
\<close>

theorem range_order_independent:
  "(ascii_compatible U \<and>
    parse_endpoint U (endpoint_str e1) P = Inr a \<and> parse_endpoint U (endpoint_str e2) P = Inr b \<and>
    \<not> (e1 = Last \<and> is_num e2) \<and> \<not> (e2 = Last \<and> is_num e1) \<longrightarrow>
      parse_pages_arg U (range_token e1 e2) P = Inr (Some [min a b - 1..max a b - 1]) \<and>
      parse_pages_arg U (range_token e2 e1) P = Inr (Some [min a b - 1..max a b - 1])) \<and>
   (ascii_compatible U \<and> 5 \<le> P \<longrightarrow>
      parse_pages_arg U (u ''2-5'') P = Inr (Some [1, 2, 3, 4]) \<and>
      parse_pages_arg U (u ''5-2'') P = Inr (Some [1, 2, 3, 4])) \<and>
   (ascii_compatible U \<and> int n \<le> P - 1 \<longrightarrow>
      parse_pages_arg U (range_token Last (Num n)) P = Inr (Some [P - 1 - int n]))"
proof (rule conjI; (rule conjI)?; rule impI)
  assume "ascii_compatible U \<and>
    parse_endpoint U (endpoint_str e1) P = Inr a \<and> parse_endpoint U (endpoint_str e2) P = Inr b \<and>
    \<not> (e1 = Last \<and> is_num e2) \<and> \<not> (e2 = Last \<and> is_num e1)"
  then have U: "ascii_compatible U"
    and a: "parse_endpoint U (endpoint_str e1) P = Inr a"
    and b: "parse_endpoint U (endpoint_str e2) P = Inr b"
    and n12: "\<not> (e1 = Last \<and> is_num e2)" and n21: "\<not> (e2 = Last \<and> is_num e1)"
    by simp_all
  from range_arg [OF U n12, of P] a b
  have "parse_pages_arg U (range_token e1 e2) P = Inr (Some [min a b - 1..max a b - 1])"
    by (simp add: py_range_def)
  moreover from range_arg [OF U n21, of P] a b
  have "parse_pages_arg U (range_token e2 e1) P = Inr (Some [min a b - 1..max a b - 1])"
    by (simp add: py_range_def min.commute max.commute)
  ultimately show "parse_pages_arg U (range_token e1 e2) P = Inr (Some [min a b - 1..max a b - 1]) \<and>
      parse_pages_arg U (range_token e2 e1) P = Inr (Some [min a b - 1..max a b - 1])"
    by simp
next
  assume "ascii_compatible U \<and> 5 \<le> P"
  then have U: "ascii_compatible U" and P: "5 \<le> P"
    by simp_all
  have t: "u ''2-5'' = range_token (Num 2) (Num 5)" "u ''5-2'' = range_token (Num 5) (Num 2)"
    by (simp_all add: range_token_def str_nat_small)
  have "parse_pages_arg U (range_token (Num 2) (Num 5)) P = Inr (Some [1, 2, 3, 4])"
    using range_arg [OF U, of "Num 2" "Num 5" P] P
      parse_endpoint_num [OF U, of 2 P] parse_endpoint_num [OF U, of 5 P]
    by (simp add: py_range_def is_num_def upto.simps)
  moreover have "parse_pages_arg U (range_token (Num 5) (Num 2)) P = Inr (Some [1, 2, 3, 4])"
    using range_arg [OF U, of "Num 5" "Num 2" P] P
      parse_endpoint_num [OF U, of 2 P] parse_endpoint_num [OF U, of 5 P]
    by (simp add: py_range_def is_num_def upto.simps)
  ultimately show "parse_pages_arg U (u ''2-5'') P = Inr (Some [1, 2, 3, 4]) \<and>
      parse_pages_arg U (u ''5-2'') P = Inr (Some [1, 2, 3, 4])"
    unfolding t by simp
next
  assume "ascii_compatible U \<and> int n \<le> P - 1"
  then have U: "ascii_compatible U" and n: "int n \<le> P - 1"
    by simp_all
  have "range_token Last (Num n) = endpoint_str (LastMinus n)"
    by (simp add: range_token_def)
  with endpoint_arg [OF U, of "LastMinus n" P] parse_one_token_last_minus [OF U, of n P] n
  show "parse_pages_arg U (range_token Last (Num n)) P = Inr (Some [P - 1 - int n])"
    by simp
qed

theorem range_order_independent_witness:
  "ascii_compatible ascii_db \<and>
   parse_endpoint ascii_db (endpoint_str (LastMinus 1)) 6 = Inr 5 \<and>
   parse_endpoint ascii_db (endpoint_str (Num 2)) 6 = Inr 2 \<and>
   \<not> (LastMinus 1 = Last \<and> is_num (Num 2)) \<and> \<not> (Num 2 = Last \<and> is_num (LastMinus 1)) \<and>
   parse_pages_arg ascii_db (u ''last-1-2'') 6 = Inr (Some [1, 2, 3, 4]) \<and>
   parse_pages_arg ascii_db (u ''2-last-1'') 6 = Inr (Some [1, 2, 3, 4]) \<and>
   (5::int) \<le> 6 \<and>
   parse_pages_arg ascii_db (u ''2-5'') 6 = Inr (Some [1, 2, 3, 4]) \<and>
   parse_pages_arg ascii_db (u ''5-2'') 6 = Inr (Some [1, 2, 3, 4]) \<and>
   int 2 \<le> 6 - 1 \<and> parse_pages_arg ascii_db (u ''last-2'') 6 = Inr (Some [3])"
proof -
  have a: "parse_endpoint ascii_db (endpoint_str (LastMinus 1)) 6 = Inr 5"
    using parse_endpoint_last_minus [OF ascii_db_compatible, of 1 6] by simp
  have b: "parse_endpoint ascii_db (endpoint_str (Num 2)) 6 = Inr 2"
    using parse_endpoint_num [OF ascii_db_compatible, of 2 6] by simp
  have t: "range_token (LastMinus 1) (Num 2) = u ''last-1-2''"
    "range_token (Num 2) (LastMinus 1) = u ''2-last-1''"
    "range_token Last (Num 2) = u ''last-2''"
    by (simp_all add: range_token_def str_nat_small)
  have r: "[min 5 2 - 1..max 5 2 - 1] = [1, 2, 3, (4::int)]"
    by (simp add: upto.simps)
  from range_order_independent [of ascii_db "LastMinus 1" 6 5 "Num 2" 2 2] a b ascii_db_compatible
  show ?thesis
    unfolding t r by simp
qed

subsection \<open>Errors\<close>

text \<open>
  Claim C5. A single token out of range is an error, neither clamped nor wrapped: for
  every page count \<open>P \<ge> 1\<close>, the arguments \<^verbatim>\<open>0\<close>, \<^verbatim>\<open>str(P + 1)\<close> and \<^verbatim>\<open>last-P\<close>
  each raise the error "Page out of range", and no list is returned.
\<close>

theorem out_of_range_tokens:
  "ascii_compatible U \<and> 1 \<le> P \<longrightarrow>
     parse_pages_arg U (u ''0'') P = Inl (PageOutOfRange (u ''0'')) \<and>
     parse_pages_arg U (py_str (P + 1)) P = Inl (PageOutOfRange (py_str (P + 1))) \<and>
     parse_pages_arg U (u ''last-'' @ py_str P) P = Inl (PageOutOfRange (u ''last-'' @ py_str P))"
proof (intro impI, elim conjE)
  assume U: "ascii_compatible U" and P: "1 \<le> P"
  have a: "parse_pages_arg U (u ''0'') P = Inl (PageOutOfRange (u ''0''))"
    using endpoint_arg [OF U, of "Num 0" P] parse_one_token_num [OF U, of 0 P]
    by (simp add: str_nat_small)
  have b: "parse_pages_arg U (py_str (P + 1)) P = Inl (PageOutOfRange (py_str (P + 1)))"
    using endpoint_arg [OF U, of "Num (nat (P + 1))" P] parse_one_token_num [OF U, of "nat (P + 1)" P] P
    by (simp add: py_str_nat)
  have c: "parse_pages_arg U (u ''last-'' @ py_str P) P = Inl (PageOutOfRange (u ''last-'' @ py_str P))"
    using endpoint_arg [OF U, of "LastMinus (nat P)" P]
      parse_one_token_last_minus [OF U, of "nat P" P] P
    by (simp add: py_str_nat)
  from a b c show "parse_pages_arg U (u ''0'') P = Inl (PageOutOfRange (u ''0'')) \<and>
     parse_pages_arg U (py_str (P + 1)) P = Inl (PageOutOfRange (py_str (P + 1))) \<and>
     parse_pages_arg U (u ''last-'' @ py_str P) P = Inl (PageOutOfRange (u ''last-'' @ py_str P))"
    by blast
qed

theorem out_of_range_tokens_witness:
  "ascii_compatible ascii_db \<and> (1::int) \<le> 9 \<and>
   parse_pages_arg ascii_db (u ''0'') 9 = Inl (PageOutOfRange (u ''0'')) \<and>
   parse_pages_arg ascii_db (u ''10'') 9 = Inl (PageOutOfRange (u ''10'')) \<and>
   parse_pages_arg ascii_db (u ''last-9'') 9 = Inl (PageOutOfRange (u ''last-9''))"
proof -
  have "py_str (9 + 1) = u ''10''" "py_str 9 = u ''9''"
    by (simp_all add: py_str_def str_nat.simps)
  with out_of_range_tokens [of ascii_db 9] ascii_db_compatible show ?thesis by simp
qed

text \<open>
  The empty string does not raise when \<^verbatim>\<open>parse_pages_arg\<close> is called with it: the
  first statement of the function returns \<^verbatim>\<open>None\<close> for it.
\<close>

theorem empty_argument_counterexample:
  "parse_pages_arg ascii_db (u '''') 1 = Inr None"
  by (simp add: parse_pages_arg_def)

text \<open>
  Claim C6, amended. The arguments \<^verbatim>\<open>abc\<close> and \<^verbatim>\<open>1-\<close> raise "Invalid token" for
  every page count. The empty string gives \<^verbatim>\<open>None\<close>, as an absent argument does. An
  argument that is not empty and has only blank segments, such as a lone comma or a
  space, raises "empty after parsing".
\<close>

theorem malformed_arguments:
  "(ascii_compatible U \<longrightarrow>
      parse_pages_arg U (u ''abc'') P = Inl (InvalidToken (u ''abc'')) \<and>
      parse_pages_arg U (u ''1-'') P = Inl (InvalidToken (u ''1-''))) \<and>
   parse_pages_arg U (u '''') P = Inr None \<and>
   (pages_arg \<noteq> [] \<and> (\<forall>seg\<in>set (split_comma (map DASHES pages_arg)). strip U seg = []) \<longrightarrow>
      parse_pages_arg U pages_arg P = Inl (EmptyAfterParsing pages_arg))"
proof (intro conjI impI)
  assume U: "ascii_compatible U"
  have "fullmatch (SINGLE_RE U) (u ''abc'') = None" "fullmatch (RANGE_RE U) (u ''abc'') = None"
    by (simp_all add: rx_defs ac_space [OF U] ac_is_decimal [OF U] ascii_space_def)
  then show "parse_pages_arg U (u ''abc'') P = Inl (InvalidToken (u ''abc''))"
    by (intro invalid_token_arg [OF U]) (simp_all add: ascii_space_def)
  have "fullmatch (SINGLE_RE U) (u ''1-'') = None" "fullmatch (RANGE_RE U) (u ''1-'') = None"
    by (simp_all add: rx_defs ac_space [OF U] ac_is_decimal [OF U] ascii_space_def)
  then show "parse_pages_arg U (u ''1-'') P = Inl (InvalidToken (u ''1-''))"
    by (intro invalid_token_arg [OF U]) (simp_all add: ascii_space_def)
next
  show "parse_pages_arg U (u '''') P = Inr None"
    by (simp add: parse_pages_arg_def)
next
  assume "pages_arg \<noteq> [] \<and> (\<forall>seg\<in>set (split_comma (map DASHES pages_arg)). strip U seg = [])"
  then have ne: "pages_arg \<noteq> []"
    and b: "\<forall>seg\<in>set (split_comma (map DASHES pages_arg)). strip U seg = []"
    by simp_all
  from blank_segments [OF b] ne
  show "parse_pages_arg U pages_arg P = Inl (EmptyAfterParsing pages_arg)"
    by (simp add: parse_pages_arg_def)
qed

theorem malformed_arguments_witness:
  "ascii_compatible ascii_db \<and>
   parse_pages_arg ascii_db (u ''abc'') 7 = Inl (InvalidToken (u ''abc'')) \<and>
   parse_pages_arg ascii_db (u ''1-'') 7 = Inl (InvalidToken (u ''1-'')) \<and>
   u '' , '' \<noteq> [] \<and>
   list_all (\<lambda>seg. strip ascii_db seg = []) (split_comma (map DASHES (u '' , ''))) \<and>
   parse_pages_arg ascii_db (u '' , '') 7 = Inl (EmptyAfterParsing (u '' , ''))"
proof -
  have b: "\<forall>seg\<in>set (split_comma (map DASHES (u '' , ''))). strip ascii_db seg = []"
    by (simp add: DASHES_def strip_def ascii_db_def ascii_space_def)
  with malformed_arguments [of ascii_db 7 "u '' , ''"] ascii_db_compatible
  show ?thesis by simp
qed

subsection \<open>The keyword all in a range\<close>

text \<open>
  \<^verbatim>\<open>1-all\<close> is not a range: neither pattern matches it, and it is an invalid token.
\<close>

theorem all_as_endpoint_counterexample:
  "parse_pages_arg ascii_db (u ''1-all'') 3 = Inl (InvalidToken (u ''1-all''))"
proof -
  have U: "ascii_compatible ascii_db"
    by (rule ascii_db_compatible)
  show ?thesis
    by (rule invalid_token_arg [OF U])
       (simp_all add: ascii_space_def rx_defs ac_space [OF U] ac_is_decimal [OF U])
qed

text \<open>
  Claim C7, amended. \<^verbatim>\<open>_parse_endpoint\<close> maps both \<^verbatim>\<open>all\<close> and \<^verbatim>\<open>last\<close> to the
  page count, but the range pattern admits no endpoint \<^verbatim>\<open>all\<close>: for every page count
  \<^verbatim>\<open>1-all\<close> raises "Invalid token", while \<^verbatim>\<open>1-last\<close> gives the indices
  \<open>0, \<dots>, P - 1\<close> for \<open>P \<ge> 1\<close>.
\<close>

theorem all_as_endpoint:
  "ascii_compatible U \<longrightarrow>
     parse_endpoint U (u ''all'') P = Inr P \<and>
     parse_endpoint U (u ''last'') P = Inr P \<and>
     fullmatch (RANGE_RE U) (u ''1-all'') = None \<and>
     parse_pages_arg U (u ''1-all'') P = Inl (InvalidToken (u ''1-all'')) \<and>
     (1 \<le> P \<longrightarrow> parse_pages_arg U (u ''1-last'') P = Inr (Some [0..P - 1]))"
proof
  assume U: "ascii_compatible U"
  have s: "fullmatch (SINGLE_RE U) (u ''1-all'') = None"
    by (simp add: rx_defs ac_space [OF U] ac_is_decimal [OF U] ascii_space_def)
  have r: "fullmatch (RANGE_RE U) (u ''1-all'') = None"
    by (simp add: rx_defs ac_space [OF U] ac_is_decimal [OF U] ascii_space_def)
  have i: "parse_pages_arg U (u ''1-all'') P = Inl (InvalidToken (u ''1-all''))"
    by (rule invalid_token_arg [OF U _ _ _ s r]) (simp_all add: ascii_space_def)
  have "u ''1-last'' = range_token (Num 1) Last"
    by (simp add: range_token_def str_nat_small)
  with range_arg [OF U, of "Num 1" Last P]
  have l: "1 \<le> P \<longrightarrow> parse_pages_arg U (u ''1-last'') P = Inr (Some [0..P - 1])"
    using parse_endpoint_num [OF U, of 1 P] parse_endpoint_last [OF U, of P]
    by (simp add: py_range_def)
  from r i l parse_endpoint_all [OF U, of P] parse_endpoint_last [OF U, of P]
  show "parse_endpoint U (u ''all'') P = Inr P \<and>
     parse_endpoint U (u ''last'') P = Inr P \<and>
     fullmatch (RANGE_RE U) (u ''1-all'') = None \<and>
     parse_pages_arg U (u ''1-all'') P = Inl (InvalidToken (u ''1-all'')) \<and>
     (1 \<le> P \<longrightarrow> parse_pages_arg U (u ''1-last'') P = Inr (Some [0..P - 1]))"
    by blast
qed

theorem all_as_endpoint_witness:
  "ascii_compatible ascii_db \<and>
   parse_endpoint ascii_db (u ''all'') 4 = Inr 4 \<and>
   parse_endpoint ascii_db (u ''last'') 4 = Inr 4 \<and>
   parse_pages_arg ascii_db (u ''1-all'') 4 = Inl (InvalidToken (u ''1-all'')) \<and>
   (1::int) \<le> 4 \<and> parse_pages_arg ascii_db (u ''1-last'') 4 = Inr (Some [0, 1, 2, 3])"
proof -
  have "[0..4 - 1] = [0, 1, 2, (3::int)]"
    by (simp add: upto.simps)
  with all_as_endpoint [of ascii_db 4] ascii_db_compatible show ?thesis by simp
qed

subsection \<open>The scanned-page gate\<close>

text \<open>
  Claim C8. \<^verbatim>\<open>_is_scanned(txt)\<close> is true exactly when fewer than 20 characters of
  \<^verbatim>\<open>txt\<close> are not whitespace: true at 19 such characters, false at 20. The characters are
  counted by their positions in the text.
\<close>

theorem is_scanned_threshold:
  "(is_scanned U txt \<longleftrightarrow> card {i. i < length txt \<and> \<not> cp_isspace U (txt ! i)} < 20) \<and>
   (card {i. i < length txt \<and> \<not> cp_isspace U (txt ! i)} = 19 \<longrightarrow> is_scanned U txt) \<and>
   (card {i. i < length txt \<and> \<not> cp_isspace U (txt ! i)} = 20 \<longrightarrow> \<not> is_scanned U txt)"
  by (simp add: is_scanned_def nonspace_positions)

theorem is_scanned_threshold_witness:
  "card {i. i < length (u ''abcde fghij klmno pqrs'') \<and>
            \<not> cp_isspace ascii_db (u ''abcde fghij klmno pqrs'' ! i)} = 19 \<and>
   is_scanned ascii_db (u ''abcde fghij klmno pqrs'') \<and>
   card {i. i < length (u ''abcde fghij klmno pqrst'') \<and>
            \<not> cp_isspace ascii_db (u ''abcde fghij klmno pqrst'' ! i)} = 20 \<and>
   \<not> is_scanned ascii_db (u ''abcde fghij klmno pqrst'')"
proof -
  have a: "card {i. i < length (u ''abcde fghij klmno pqrs'') \<and>
            \<not> cp_isspace ascii_db (u ''abcde fghij klmno pqrs'' ! i)} = 19"
    unfolding nonspace_positions by (simp add: ascii_db_def ascii_space_def)
  have b: "card {i. i < length (u ''abcde fghij klmno pqrst'') \<and>
            \<not> cp_isspace ascii_db (u ''abcde fghij klmno pqrst'' ! i)} = 20"
    unfolding nonspace_positions by (simp add: ascii_db_def ascii_space_def)
  from a b is_scanned_threshold [of ascii_db "u ''abcde fghij klmno pqrs''"]
    is_scanned_threshold [of ascii_db "u ''abcde fghij klmno pqrst''"]
  show ?thesis by blast
qed

subsection \<open>The choice between the direct and the recognised text\<close>

text \<open>
  Claim C9. The loop body of \<^verbatim>\<open>extract_full_text\<close> is the \<^verbatim>\<open>choose\<close> of the
  specification, the fallback being absent unless the gate fires and recognition is enabled.
  An absent fallback gives the direct text; a present one is returned exactly when it is
  strictly longer than the direct text once both are stripped, so a tie keeps the direct
  text. An empty direct text loses against \<^verbatim>\<open>"some recognized text"\<close>, and
  \<^verbatim>\<open>"short"\<close> wins against an empty recognised text.
\<close>

theorem page_text_choose:
  "page_text U ocr_if_scanned txt ocr_txt =
     choose_spec U txt (if is_scanned U txt \<and> ocr_if_scanned then Some ocr_txt else None) \<and>
   choose_spec U txt None = txt \<and>
   (length (strip U txt) < length (strip U ocr_txt) \<longrightarrow> choose_spec U txt (Some ocr_txt) = ocr_txt) \<and>
   (\<not> length (strip U txt) < length (strip U ocr_txt) \<longrightarrow> choose_spec U txt (Some ocr_txt) = txt) \<and>
   (ascii_compatible U \<longrightarrow>
      choose_spec U (u '''') (Some (u ''some recognized text'')) = u ''some recognized text'' \<and>
      page_text U True (u '''') (u ''some recognized text'') = u ''some recognized text'' \<and>
      choose_spec U (u ''short'') (Some (u '''')) = u ''short'' \<and>
      page_text U True (u ''short'') (u '''') = u ''short'')"
  by (simp add: page_text_def choose_spec_def is_scanned_def strip_def ac_space ascii_space_def)

theorem page_text_choose_witness:
  "ascii_compatible ascii_db \<and>
   length (strip ascii_db (u ''ab '')) < length (strip ascii_db (u '' xyz'')) \<and>
   choose_spec ascii_db (u ''ab '') (Some (u '' xyz'')) = u '' xyz'' \<and>
   \<not> length (strip ascii_db (u '' xyz'')) < length (strip ascii_db (u ''abc  '')) \<and>
   choose_spec ascii_db (u '' xyz'') (Some (u ''abc  '')) = u '' xyz'' \<and>
   page_text ascii_db True (u ''short'') (u '''') = u ''short''"
proof -
  have a: "length (strip ascii_db (u ''ab '')) < length (strip ascii_db (u '' xyz''))"
    by (simp add: strip_def ascii_db_def ascii_space_def)
  have b: "\<not> length (strip ascii_db (u '' xyz'')) < length (strip ascii_db (u ''abc  ''))"
    by (simp add: strip_def ascii_db_def ascii_space_def)
  from a b ascii_db_compatible
    page_text_choose [of ascii_db True "u ''ab ''" "u '' xyz''"]
    page_text_choose [of ascii_db True "u '' xyz''" "u ''abc  ''"]
  show ?thesis by blast
qed

subsection \<open>The three-part token\<close>

text \<open>
  Claim C10. The three-part token \<^verbatim>\<open>last-K-last\<close> is accepted as the range from the
  endpoint \<^verbatim>\<open>last-K\<close> to the endpoint \<^verbatim>\<open>last\<close>: for every page count \<open>P \<ge> K + 1\<close> the
  result is the list \<open>P - 1 - K, \<dots>, P - 1\<close>.
\<close>

theorem last_offset_to_last:
  "ascii_compatible U \<and> 0 \<le> K \<and> K + 1 \<le> P \<longrightarrow>
     parse_pages_arg U (u ''last-'' @ py_str K @ u ''-last'') P = Inr (Some [P - 1 - K..P - 1])"
proof (intro impI, elim conjE)
  assume U: "ascii_compatible U" and K: "0 \<le> K" "K + 1 \<le> P"
  have "u ''last-'' @ py_str K @ u ''-last'' = range_token (LastMinus (nat K)) Last"
    using K by (simp add: range_token_def py_str_nat)
  moreover have "parse_pages_arg U (range_token (LastMinus (nat K)) Last) P =
      Inr (Some [P - 1 - K..P - 1])"
    using range_arg [OF U, of "LastMinus (nat K)" Last P] K
      parse_endpoint_last_minus [OF U, of "nat K" P] parse_endpoint_last [OF U, of P]
    by (simp add: py_range_def algebra_simps)
  ultimately show "parse_pages_arg U (u ''last-'' @ py_str K @ u ''-last'') P =
      Inr (Some [P - 1 - K..P - 1])"
    by simp
qed

theorem last_offset_to_last_witness:
  "ascii_compatible ascii_db \<and> (0::int) \<le> 2 \<and> (2::int) + 1 \<le> 5 \<and>
   parse_pages_arg ascii_db (u ''last-2-last'') 5 = Inr (Some [2, 3, 4])"
proof -
  have "py_str 2 = u ''2''"
    by (simp add: py_str_def str_nat.simps)
  moreover have "[5 - 1 - 2..5 - 1] = [2, 3, (4::int)]"
    by (simp add: upto.simps)
  ultimately show ?thesis
    using last_offset_to_last [of ascii_db 2 5] ascii_db_compatible by simp
qed

end
